theory Spec2Isabelle
  imports Main "HOL-Library.Word"
begin

unbundle bit_operations_syntax

section \<open>Bytes and the 32-bit length field\<close>

type_synonym byte = "8 word"
type_synonym int32 = "32 word"

text \<open>
  \<^verbatim>\<open>ByteBuffer.putInt(0, size)\<close> and \<^verbatim>\<open>ByteBuffer.getInt(0)\<close> on a freshly allocated
  buffer use big-endian byte order: the most significant byte comes first.
\<close>

definition putInt :: "int32 \<Rightarrow> byte list" where
  "putInt w = [ucast (drop_bit 24 w), ucast (drop_bit 16 w), ucast (drop_bit 8 w), ucast w]"

definition getInt :: "byte list \<Rightarrow> int32" where
  "getInt bs = foldl (\<lambda>w b. push_bit 8 w OR ucast b) 0 bs"

section \<open>The socket channel\<close>

text \<open>
  The exceptions of \<^verbatim>\<open>java.nio.channels\<close> that the transport tells apart.
  \<^verbatim>\<open>AsynchronousCloseException\<close> is a subclass of \<^verbatim>\<open>ClosedChannelException\<close>, so a
  Scala pattern \<^verbatim>\<open>case err: ClosedChannelException\<close> matches both.
\<close>

datatype io_exception = ClosedChannelException | AsynchronousCloseException | IOException

definition isClosedChannelException :: "io_exception \<Rightarrow> bool" where
  "isClosedChannelException e = (e = ClosedChannelException \<or> e = AsynchronousCloseException)"

text \<open>
  What the operating system does at one call of \<^verbatim>\<open>SocketChannel.read\<close>: it hands over at
  most so many bytes (a partial read), or the call throws.
\<close>

datatype os_read = Deliver nat | ReadFails io_exception

text \<open>
  A \<^verbatim>\<open>SocketChannel\<close> seen from one end. \<open>incoming\<close> holds the bytes the peer has sent
  and that have not been read yet; after them the stream is at its end and a read returns
  \<open>-1\<close>. \<open>reads\<close> scripts the successive calls of \<^verbatim>\<open>read\<close>; once it is used up, a read
  fills the buffer as far as the bytes reach. \<open>outgoing\<close> collects the bytes written, in
  order; \<open>writes\<close> scripts the successive calls of \<^verbatim>\<open>write\<close> (\<open>Some e\<close>: the call
  throws \<open>e\<close>); once it is used up, writes succeed. The channels are in blocking mode (they
  come from \<^verbatim>\<open>SocketChannel.open\<close> and \<^verbatim>\<open>ServerSocketChannel.accept\<close> and are never
  reconfigured), so a write that succeeds writes all the bytes it was given.
\<close>

record socket_channel =
  incoming :: "byte list"
  reads :: "os_read list"
  outgoing :: "byte list"
  writes :: "io_exception option list"
  isOpen :: bool

definition deliver :: "nat \<Rightarrow> socket_channel \<Rightarrow> (io_exception + int \<times> byte list) \<times> socket_channel" where
  "deliver k ch =
     (if incoming ch = [] then (Inr (- 1, []), ch)
      else (Inr (int (length (take k (incoming ch))), take k (incoming ch)),
            ch\<lparr>incoming := drop k (incoming ch)\<rparr>))"

text \<open>
  \<^verbatim>\<open>socketChannel.read(dst)\<close> with \<open>n\<close> the space remaining in \<open>dst\<close>: the number of
  bytes read (\<open>-1\<close> at the end of the stream) and the bytes themselves, or the exception.
\<close>

definition channel_read :: "socket_channel \<Rightarrow> nat \<Rightarrow> (io_exception + int \<times> byte list) \<times> socket_channel" where
  "channel_read ch n =
     (if \<not> isOpen ch then (Inl ClosedChannelException, ch)
      else case reads ch of
             [] \<Rightarrow> deliver n ch
           | Deliver c # rs \<Rightarrow> deliver (min c n) (ch\<lparr>reads := rs\<rparr>)
           | ReadFails e # rs \<Rightarrow> (Inl e, ch\<lparr>reads := rs\<rparr>))"

text \<open>\<^verbatim>\<open>socketChannel.write(src)\<close> with \<open>bs\<close> the bytes remaining in \<open>src\<close>.\<close>

definition channel_write :: "socket_channel \<Rightarrow> byte list \<Rightarrow> (io_exception + int) \<times> socket_channel" where
  "channel_write ch bs =
     (if \<not> isOpen ch then (Inl ClosedChannelException, ch)
      else case writes ch of
             [] \<Rightarrow> (Inr (int (length bs)), ch\<lparr>outgoing := outgoing ch @ bs\<rparr>)
           | None # ws \<Rightarrow> (Inr (int (length bs)), ch\<lparr>outgoing := outgoing ch @ bs, writes := ws\<rparr>)
           | Some e # ws \<Rightarrow> (Inl e, ch\<lparr>writes := ws\<rparr>))"

definition channel_close :: "socket_channel \<Rightarrow> socket_channel" where
  "channel_close ch = ch\<lparr>isOpen := False\<rparr>"

section \<open>FramedSocket: reading a frame\<close>

text \<open>
  The first loop of \<^verbatim>\<open>readBuffer\<close>, on \<^verbatim>\<open>incomingLengthBuffer\<close> (capacity 4) after
  \<^verbatim>\<open>rewind()\<close>; \<open>buf\<close> holds the bytes read so far, so \<^verbatim>\<open>hasRemaining\<close> is
  \<open>length buf < 4\<close>. A read of \<open>-1\<close> leaves the method with \<^verbatim>\<open>None\<close>.
\<close>

function readLength :: "socket_channel \<Rightarrow> byte list \<Rightarrow> (io_exception + byte list option) \<times> socket_channel" where
  "readLength ch buf =
     (if length buf < 4 then
        (case channel_read ch (4 - length buf) of
           (Inl e, ch') \<Rightarrow> (Inl e, ch')
         | (Inr (r, bs), ch') \<Rightarrow> if r = - 1 then (Inr None, ch') else readLength ch' (buf @ bs))
      else (Inr (Some buf), ch))"
  by pat_completeness auto
termination
proof (relation "measure (\<lambda>(ch, buf). (4 - length buf) + length (reads ch))", goal_cases)
  case 1
  show ?case by simp
next
  case (2 ch buf x ch' y r bs)
  from 2 have rd: "channel_read ch (4 - length buf) = (Inr (r, bs), ch')" and r: "r \<noteq> - 1"
    by simp_all
  from rd r have a: "length (reads ch') \<le> length (reads ch)"
    by (auto simp: channel_read_def deliver_def split: if_splits list.splits os_read.splits)
  from rd r have b: "length bs \<le> 4 - length buf"
    by (auto simp: channel_read_def deliver_def split: if_splits list.splits os_read.splits)
  from rd r 2(1) have c: "bs \<noteq> [] \<or> length (reads ch') < length (reads ch)"
    by (auto simp: channel_read_def deliver_def split: if_splits list.splits os_read.splits)
  from c have "0 < length bs \<or> length (reads ch') < length (reads ch)"
    by auto
  with a b 2(1)
  have "(4 - (length buf + length bs)) + length (reads ch') < (4 - length buf) + length (reads ch)"
    by linarith
  then show ?case
    by simp
qed

declare readLength.simps [simp del]

text \<open>
  The second loop, on \<^verbatim>\<open>msgBuffer\<close> of capacity \<open>cap\<close>. The result of
  \<^verbatim>\<open>socketChannel.read(msgBuffer)\<close> is not looked at, so the loop runs until the buffer is
  full; \<open>None\<close> is a loop that never ends.
\<close>

partial_function (option) readPayload ::
  "socket_channel \<Rightarrow> nat \<Rightarrow> byte list \<Rightarrow> ((io_exception + byte list) \<times> socket_channel) option" where
  "readPayload ch cap buf =
     (if length buf < cap then
        (case channel_read ch (cap - length buf) of
           (Inl e, ch') \<Rightarrow> Some (Inl e, ch')
         | (Inr (r, bs), ch') \<Rightarrow> readPayload ch' cap (buf @ bs))
      else Some (Inr buf, ch))"

text \<open>
  \<^verbatim>\<open>readBuffer()\<close>: \<open>Inr None\<close> is Scala's \<^verbatim>\<open>None\<close>, \<open>Inr (Some None)\<close> is
  \<^verbatim>\<open>Some(None)\<close>, \<open>Inr (Some (Some buf))\<close> is \<^verbatim>\<open>Some(Some(msgBuffer))\<close>, \<open>Inl e\<close>
  is the exception thrown; the outer \<open>None\<close> is a call that never returns.
\<close>

definition readBuffer ::
  "socket_channel \<Rightarrow> ((io_exception + byte list option option) \<times> socket_channel) option" where
  "readBuffer ch =
     (case readLength ch [] of
        (Inl e, ch') \<Rightarrow> Some (Inl e, ch')
      | (Inr None, ch') \<Rightarrow> Some (Inr None, ch')
      | (Inr (Some lengthBuffer), ch') \<Rightarrow>
          (let len = getInt lengthBuffer in
           if len <s 0 then Some (Inr None, ch')
           else if len = 0 then Some (Inr (Some None), ch')
           else (case readPayload ch' (nat (sint len)) [] of
                   None \<Rightarrow> None
                 | Some (Inl e, ch'') \<Rightarrow> Some (Inl e, ch'')
                 | Some (Inr msgBuffer, ch'') \<Rightarrow> Some (Inr (Some (Some msgBuffer)), ch''))))"

section \<open>FramedSocket: the socket, its closed latch, and close\<close>

text \<open>
  \<^verbatim>\<open>Promise[Throwable, Unit]\<close>: a cell that is completed once. \<^verbatim>\<open>succeed\<close> and
  \<^verbatim>\<open>fail\<close> on a completed promise change nothing.
\<close>

datatype promise = Pending | Succeeded | Failed io_exception

definition promise_succeed :: "promise \<Rightarrow> promise" where
  "promise_succeed p = (case p of Pending \<Rightarrow> Succeeded | _ \<Rightarrow> p)"

definition promise_fail :: "io_exception \<Rightarrow> promise \<Rightarrow> promise" where
  "promise_fail e p = (case p of Pending \<Rightarrow> Failed e | _ \<Rightarrow> p)"

text \<open>
  \<^verbatim>\<open>class FramedSocket(socketChannel, closed)\<close>. The two length buffers are local to
  \<open>readLength\<close> and \<open>writeSize\<close>. The write lock is free whenever one of the operations
  below starts and is released when it ends: each of them is one atomic step here.
\<close>

record framed_socket =
  socketChannel :: socket_channel
  closed :: promise

text \<open>\<^verbatim>\<open>close()\<close>: closes the channel, then \<^verbatim>\<open>closed.succeed(())\<close>.\<close>

definition close :: "framed_socket \<Rightarrow> framed_socket" where
  "close s = s\<lparr>socketChannel := channel_close (socketChannel s), closed := promise_succeed (closed s)\<rparr>"

text \<open>
  \<^verbatim>\<open>read()\<close>: \<^verbatim>\<open>readBuffer()\<close>, where an \<^verbatim>\<open>AsynchronousCloseException\<close> is caught
  (\<^verbatim>\<open>close()\<close>, then \<^verbatim>\<open>None\<close>) and any other exception fails the latch and is passed on.
\<close>

definition read :: "framed_socket \<Rightarrow> ((io_exception + byte list option option) \<times> framed_socket) option" where
  "read s =
     (case readBuffer (socketChannel s) of
        None \<Rightarrow> None
      | Some (Inr r, ch') \<Rightarrow> Some (Inr r, s\<lparr>socketChannel := ch'\<rparr>)
      | Some (Inl e, ch') \<Rightarrow>
          (if e = AsynchronousCloseException then Some (Inr None, close (s\<lparr>socketChannel := ch'\<rparr>))
           else Some (Inl e, s\<lparr>socketChannel := ch', closed := promise_fail e (closed s)\<rparr>)))"

section \<open>FramedSocket: writing a frame\<close>

text \<open>
  \<^verbatim>\<open>writeSize(size)\<close>: the four bytes of \<^verbatim>\<open>outgoingLengthBuffer\<close> in one call of
  \<^verbatim>\<open>socketChannel.write\<close>.
\<close>

definition writeSize :: "socket_channel \<Rightarrow> int32 \<Rightarrow> (io_exception + int) \<times> socket_channel" where
  "writeSize ch sz = channel_write ch (putInt sz)"

text \<open>The loop of \<^verbatim>\<open>write\<close> on \<^verbatim>\<open>byteBuffer\<close>; \<open>bs\<close> holds the bytes remaining.\<close>

function writeLoop :: "socket_channel \<Rightarrow> byte list \<Rightarrow> (io_exception + unit) \<times> socket_channel" where
  "writeLoop ch bs =
     (if bs \<noteq> [] then
        (case channel_write ch bs of
           (Inl e, ch') \<Rightarrow> (Inl e, ch')
         | (Inr n, ch') \<Rightarrow> writeLoop ch' (drop (nat n) bs))
      else (Inr (), ch))"
  by pat_completeness auto
termination
  by (relation "measure (\<lambda>(ch, bs). length bs)")
     (auto simp: channel_write_def split: if_splits list.splits option.splits)

declare writeLoop.simps [simp del]

text \<open>
  The \<^verbatim>\<open>tapError\<close> of \<^verbatim>\<open>write\<close>: a \<^verbatim>\<open>ClosedChannelException\<close> only closes; any other
  exception fails the latch first. The exception is passed on.
\<close>

definition writeFailed :: "io_exception \<Rightarrow> framed_socket \<Rightarrow> (io_exception + unit) \<times> framed_socket" where
  "writeFailed e s =
     (if isClosedChannelException e then (Inl e, close s)
      else (Inl e, close (s\<lparr>closed := promise_fail e (closed s)\<rparr>)))"

text \<open>
  \<^verbatim>\<open>write(msg)\<close>, with \<open>msg\<close> the bytes of \<^verbatim>\<open>msg.toByteVector\<close> (named
  \<open>write_msg\<close>, since \<open>write\<close> is reserved in Isabelle).
  \<open>sz\<close> is \<^verbatim>\<open>byteVector.size.toInt\<close>, which keeps the low 32 bits of the size.
\<close>

definition write_msg :: "framed_socket \<Rightarrow> byte list \<Rightarrow> (io_exception + unit) \<times> framed_socket" where
  "write_msg s msg =
     (let sz = (word_of_nat (length msg) :: int32) in
      case writeSize (socketChannel s) sz of
        (Inl e, ch') \<Rightarrow> writeFailed e (s\<lparr>socketChannel := ch'\<rparr>)
      | (Inr n, ch') \<Rightarrow>
          (case writeLoop ch' msg of
             (Inl e, ch'') \<Rightarrow> writeFailed e (s\<lparr>socketChannel := ch''\<rparr>)
           | (Inr u, ch'') \<Rightarrow> (Inr (), s\<lparr>socketChannel := ch''\<rparr>)))"

text \<open>\<^verbatim>\<open>sendKeepalive()\<close> when the write lock is free: \<^verbatim>\<open>writeSize(0)\<close>.\<close>

definition sendKeepalive :: "framed_socket \<Rightarrow> (io_exception + unit) \<times> framed_socket" where
  "sendKeepalive s =
     (case writeSize (socketChannel s) 0 of
        (Inl e, ch') \<Rightarrow> (Inl e, s\<lparr>socketChannel := ch'\<rparr>)
      | (Inr n, ch') \<Rightarrow> (Inr (), s\<lparr>socketChannel := ch'\<rparr>))"

text \<open>
  The bytes one successful \<open>write_msg s msg\<close> puts on the wire: the length, then the payload.
  A keepalive is the frame of the empty payload.
\<close>

definition frame :: "byte list \<Rightarrow> byte list" where
  "frame msg = putInt (word_of_nat (length msg)) @ msg"

section \<open>Streams\<close>

text \<open>
  An effectful stream is given by its pull: run on a state, it emits one element, or ends,
  or fails; \<open>None\<close> is a pull that never returns.
\<close>

datatype failure =
    IO io_exception
  | IllegalStateException string
  | TimeoutException
  | DecodingError

datatype 'a step = Emit 'a | Done | Raise failure

text \<open>Running a stream to its end: the elements in order, and the failure if it ended by one.\<close>

partial_function (option) toList ::
  "('s \<Rightarrow> ('a step \<times> 's) option) \<Rightarrow> 's \<Rightarrow> ('a list \<times> failure option \<times> 's) option" where
  "toList pull s =
     (case pull s of
        None \<Rightarrow> None
      | Some (Done, s') \<Rightarrow> Some ([], None, s')
      | Some (Raise e, s') \<Rightarrow> Some ([], Some e, s')
      | Some (Emit a, s') \<Rightarrow>
          Option.bind (toList pull s') (\<lambda>(as, r, s''). Some (a # as, r, s'')))"

text \<open>
  \<^verbatim>\<open>bitVectors\<close>: \<^verbatim>\<open>Stream.repeatEval(read())\<close>, where an error is handed to
  \<^verbatim>\<open>closed.fail\<close> and ends the stream (\<^verbatim>\<open>handleErrorWith ... drain\<close>), \<^verbatim>\<open>None\<close> ends
  it (\<^verbatim>\<open>unNoneTerminate\<close>) and \<^verbatim>\<open>Some(None)\<close> is skipped (\<^verbatim>\<open>unNone\<close>).
\<close>

partial_function (option) bitVectors :: "framed_socket \<Rightarrow> (byte list step \<times> framed_socket) option" where
  "bitVectors s =
     (case read s of
        None \<Rightarrow> None
      | Some (Inl e, s') \<Rightarrow> Some (Done, s'\<lparr>closed := promise_fail e (closed s')\<rparr>)
      | Some (Inr None, s') \<Rightarrow> Some (Done, s')
      | Some (Inr (Some None), s') \<Rightarrow> bitVectors s'
      | Some (Inr (Some (Some buf)), s') \<Rightarrow> Some (Emit buf, s'))"

section \<open>FramedSocket: construction and the keepalive fiber\<close>

text \<open>
  \<^verbatim>\<open>FramedSocket.apply(socketChannel, keepalive = true)\<close>: a fresh latch around the
  channel. It also forks a fiber that runs \<open>keepaliveTick\<close> at once and then every 250
  milliseconds, for as long as the tick succeeds.
\<close>

definition FramedSocket_apply :: "socket_channel \<Rightarrow> framed_socket" where
  "FramedSocket_apply channel = \<lparr>socketChannel = channel, closed = Pending\<rparr>"

text \<open>
  One round of the fiber: \<^verbatim>\<open>sendKeepalive()\<close>, and on an error \<^verbatim>\<open>closed.fail(err)\<close>,
  then \<^verbatim>\<open>socketChannel.close()\<close>.
\<close>

definition keepaliveTick :: "framed_socket \<Rightarrow> framed_socket" where
  "keepaliveTick s =
     (case sendKeepalive s of
        (Inr u, s') \<Rightarrow> s'
      | (Inl e, s') \<Rightarrow>
          s'\<lparr>socketChannel := channel_close (socketChannel s'), closed := promise_fail e (closed s')\<rparr>)"

section \<open>The role handshake on the server\<close>

text \<open>
  The two values of \<^verbatim>\<open>IdentifyChannel\<close> that \<^verbatim>\<open>selectChannels\<close> matches on. Its codec
  is defined in another file of the repository: \<open>decodeBuffer\<close> (which may fail) and \<open>encode\<close> are
  parameters of the functions that use them.
\<close>

datatype channel_role = MainChannel | NotebookUpdatesChannel

type_synonym inet_socket_address = "string \<times> nat"

record channels =
  mainChannel :: framed_socket
  notebookUpdatesChannel :: framed_socket
  address :: inet_socket_address

text \<open>
  \<^verbatim>\<open>channel.read().repeat(ZSchedule.doUntil { case Some(Some(_)) => true; case _ => false })\<close>:
  the read is run again until its result is \<^verbatim>\<open>Some(Some(_))\<close>; a failed read ends the
  repetition with that failure.
\<close>

partial_function (option) identifyRead ::
  "framed_socket \<Rightarrow> ((io_exception + byte list option option) \<times> framed_socket) option" where
  "identifyRead channel =
     (case read channel of
        None \<Rightarrow> None
      | Some (Inl e, channel') \<Rightarrow> Some (Inl e, channel')
      | Some (Inr (Some (Some buf)), channel') \<Rightarrow> Some (Inr (Some (Some buf)), channel')
      | Some (Inr r, channel') \<Rightarrow> identifyRead channel')"

definition identify ::
  "(byte list \<Rightarrow> failure + channel_role) \<Rightarrow> framed_socket \<Rightarrow> ((failure + channel_role) \<times> framed_socket) option" where
  "identify decodeBuffer channel =
     (case identifyRead channel of
        None \<Rightarrow> None
      | Some (Inl e, channel') \<Rightarrow> Some (Inl (IO e), channel')
      | Some (Inr (Some (Some buf)), channel') \<Rightarrow> Some (decodeBuffer buf, channel')
      | Some (Inr r, channel') \<Rightarrow> Some (Inl (IllegalStateException ''No buffer was received''), channel'))"

text \<open>
  \<^verbatim>\<open>selectChannels\<close>. The two \<open>identify\<close> run in parallel on two different sockets, so
  neither sees the other's effects; the result gives, besides the channels or the failure,
  both sockets as the reads have left them. When both fail, the failure of the first is
  reported. When a side never returns, the result here is \<open>None\<close>, the whole never
  returning (ZIO would still report a failure of the other side if it could interrupt the
  side that never returns; nothing below is stated for that case).
\<close>

definition selectChannels ::
  "(byte list \<Rightarrow> failure + channel_role) \<Rightarrow> framed_socket \<Rightarrow> framed_socket \<Rightarrow> inet_socket_address
     \<Rightarrow> ((failure + channels) \<times> framed_socket \<times> framed_socket) option" where
  "selectChannels decodeBuffer channel1 channel2 addr =
     (case identify decodeBuffer channel1 of
        None \<Rightarrow> None
      | Some (r1, c1) \<Rightarrow>
          (case identify decodeBuffer channel2 of
             None \<Rightarrow> None
           | Some (r2, c2) \<Rightarrow>
               Some (case (r1, r2) of
                       (Inl e, _) \<Rightarrow> (Inl e, c1, c2)
                     | (_, Inl e) \<Rightarrow> (Inl e, c1, c2)
                     | (Inr MainChannel, Inr NotebookUpdatesChannel) \<Rightarrow>
                         (Inr \<lparr>mainChannel = c1, notebookUpdatesChannel = c2, address = addr\<rparr>, c1, c2)
                     | (Inr NotebookUpdatesChannel, Inr MainChannel) \<Rightarrow>
                         (Inr \<lparr>mainChannel = c2, notebookUpdatesChannel = c1, address = addr\<rparr>, c1, c2)
                     | other \<Rightarrow> (Inl (IllegalStateException ''Illegal channel set''), c1, c2))))"

section \<open>The deployed process and the server transport\<close>

text \<open>
  \<^verbatim>\<open>DeployedProcess\<close>, as far as construction is concerned: the process runs until
  \<^verbatim>\<open>kill()\<close> destroys it.
\<close>

datatype deployed_process = Alive | Destroyed

definition kill :: "deployed_process \<Rightarrow> deployed_process" where
  "kill p = Destroyed"

record socket_transport_server =
  serverChannels :: channels
  serverProcess :: deployed_process
  serverClosed :: promise

text \<open>
  \<^verbatim>\<open>SocketTransportServer.apply\<close>: a fresh latch, then \<^verbatim>\<open>selectChannels\<close>; its failure
  is the failure of the construction. (The two fibers forked afterwards only wait.)
\<close>

definition SocketTransportServer_apply ::
  "(byte list \<Rightarrow> failure + channel_role) \<Rightarrow> inet_socket_address \<Rightarrow> framed_socket \<Rightarrow> framed_socket
     \<Rightarrow> deployed_process \<Rightarrow> ((failure + socket_transport_server) \<times> framed_socket \<times> framed_socket) option" where
  "SocketTransportServer_apply decodeBuffer addr channel1 channel2 process =
     (case selectChannels decodeBuffer channel1 channel2 addr of
        None \<Rightarrow> None
      | Some (Inl e, c1, c2) \<Rightarrow> Some (Inl e, c1, c2)
      | Some (Inr chs, c1, c2) \<Rightarrow>
          Some (Inr \<lparr>serverChannels = chs, serverProcess = process, serverClosed = Pending\<rparr>, c1, c2))"

text \<open>
  The listening \<^verbatim>\<open>ServerSocketChannel\<close>: its address and the connections that will arrive,
  each with the time in milliseconds from the moment \<^verbatim>\<open>accept()\<close> is called until it
  arrives. With no connection left, \<^verbatim>\<open>accept()\<close> waits for ever.
\<close>

record server_socket_channel =
  localAddress :: inet_socket_address
  pending :: "(nat \<times> socket_channel) list"

text \<open>\<^verbatim>\<open>3.minutes\<close>, the default of \<^verbatim>\<open>startConnection\<close>, in milliseconds.\<close>

definition defaultTimeout :: nat where
  "defaultTimeout = 3 * 60 * 1000"

text \<open>
  \<^verbatim>\<open>startConnection\<close>: \<^verbatim>\<open>accept()\<close> and the wrapping in a \<^verbatim>\<open>FramedSocket\<close>, under
  \<^verbatim>\<open>.timeout(timeout)\<close>; a timeout becomes a \<^verbatim>\<open>TimeoutException\<close>. Nothing after the
  wrapping is under the timeout. A connection that arrives at the very moment the timeout
  expires is a race in the code; here it counts as too late.
\<close>

definition startConnection ::
  "server_socket_channel \<Rightarrow> nat \<Rightarrow> (failure + framed_socket) \<times> server_socket_channel" where
  "startConnection server timeout =
     (case pending server of
        [] \<Rightarrow> (Inl TimeoutException, server)
      | (delay, channel) # rest \<Rightarrow>
          if delay < timeout
          then (Inr (FramedSocket_apply channel), server\<lparr>pending := rest\<rparr>)
          else (Inl TimeoutException, server))"

text \<open>
  What exists when \<^verbatim>\<open>deployAndServe\<close> has ended: the listener, the process if it was
  deployed, and the sockets accepted so far.
\<close>

record resources =
  listener :: server_socket_channel
  process :: "deployed_process option"
  sockets :: "framed_socket list"

text \<open>
  \<^verbatim>\<open>deployAndServe\<close>, given the opened listener and the outcome of
  \<^verbatim>\<open>deploy.deployKernel\<close> (the task manager's wrapping and the progress report are left
  out). Each step's failure is the failure of the whole; no step is followed by a release
  of what the earlier steps acquired.
\<close>

definition deployAndServe ::
  "(byte list \<Rightarrow> failure + channel_role) \<Rightarrow> server_socket_channel \<Rightarrow> failure + deployed_process
     \<Rightarrow> ((failure + socket_transport_server) \<times> resources) option" where
  "deployAndServe decodeBuffer socketServer deployed =
     (case deployed of
        Inl e \<Rightarrow> Some (Inl e, \<lparr>listener = socketServer, process = None, sockets = []\<rparr>)
      | Inr p \<Rightarrow>
          (case startConnection socketServer defaultTimeout of
             (Inl e, srv1) \<Rightarrow> Some (Inl e, \<lparr>listener = srv1, process = Some p, sockets = []\<rparr>)
           | (Inr connection, srv1) \<Rightarrow>
               (case startConnection srv1 defaultTimeout of
                  (Inl e, srv2) \<Rightarrow>
                    Some (Inl e, \<lparr>listener = srv2, process = Some p, sockets = [connection]\<rparr>)
                | (Inr connection2, srv2) \<Rightarrow>
                    (case SocketTransportServer_apply decodeBuffer (localAddress srv2) connection connection2 p of
                       None \<Rightarrow> None
                     | Some (r, c1, c2) \<Rightarrow>
                         Some (r, \<lparr>listener = srv2, process = Some p, sockets = [c1, c2]\<rparr>)))))"

section \<open>The client: connecting\<close>

text \<open>
  \<^verbatim>\<open>connectClient\<close> runs beside the keepalive fibers of the sockets it has made. A
  schedule lists, in the order they happen, the steps of \<^verbatim>\<open>connectClient\<close>'s own four
  effects (\<open>Step\<close>) and the rounds of the two keepalive fibers. Each is atomic: a frame is
  written under the write lock.
\<close>

datatype client_action = Step | KeepaliveMain | KeepaliveUpdates

text \<open>
  \<open>stage\<close> counts the effects of \<^verbatim>\<open>connectClient\<close> that are done; \<open>clientFailure\<close> is
  set when one of them has failed, which ends \<^verbatim>\<open>connectClient\<close>.
\<close>

record client_state =
  stage :: nat
  mainSocket :: "framed_socket option"
  updatesSocket :: "framed_socket option"
  clientFailure :: "failure option"

definition initialClient :: client_state where
  "initialClient = \<lparr>stage = 0, mainSocket = None, updatesSocket = None, clientFailure = None\<rparr>"

text \<open>\<^verbatim>\<open>IdentifyChannel.encode(role) >>= channel.write\<close>\<close>

definition sendRole ::
  "(channel_role \<Rightarrow> failure + byte list) \<Rightarrow> channel_role \<Rightarrow> framed_socket \<Rightarrow> (failure + unit) \<times> framed_socket" where
  "sendRole encode role channel =
     (case encode role of
        Inl e \<Rightarrow> (Inl e, channel)
      | Inr msg \<Rightarrow>
          (case write_msg channel msg of
             (Inl e, channel') \<Rightarrow> (Inl (IO e), channel')
           | (Inr u, channel') \<Rightarrow> (Inr (), channel')))"

text \<open>
  One action of a schedule; \<open>main\<close> and \<open>updates\<close> are the channels that the two calls
  of \<^verbatim>\<open>SocketChannel.open(serverAddress)\<close> return. \<open>None\<close>: the action cannot happen in
  this state (a step of a \<^verbatim>\<open>connectClient\<close> that has ended, a round of a fiber that
  has not been forked).
\<close>

definition connectClient_step ::
  "(channel_role \<Rightarrow> failure + byte list) \<Rightarrow> socket_channel \<Rightarrow> socket_channel
     \<Rightarrow> client_action \<Rightarrow> client_state \<Rightarrow> client_state option" where
  "connectClient_step encode main updates a st =
     (case a of
        KeepaliveMain \<Rightarrow>
          (case mainSocket st of
             None \<Rightarrow> None
           | Some m \<Rightarrow> Some (st\<lparr>mainSocket := Some (keepaliveTick m)\<rparr>))
      | KeepaliveUpdates \<Rightarrow>
          (case updatesSocket st of
             None \<Rightarrow> None
           | Some u \<Rightarrow> Some (st\<lparr>updatesSocket := Some (keepaliveTick u)\<rparr>))
      | Step \<Rightarrow>
          if clientFailure st \<noteq> None then None
          else if stage st = 0 then
            Some (st\<lparr>stage := 1, mainSocket := Some (FramedSocket_apply main)\<rparr>)
          else if stage st = 1 then
            Some (st\<lparr>stage := 2, updatesSocket := Some (FramedSocket_apply updates)\<rparr>)
          else if stage st = 2 then
            (case mainSocket st of
               None \<Rightarrow> None
             | Some m \<Rightarrow>
                 (case sendRole encode MainChannel m of
                    (Inl e, m') \<Rightarrow> Some (st\<lparr>mainSocket := Some m', clientFailure := Some e\<rparr>)
                  | (Inr u, m') \<Rightarrow> Some (st\<lparr>stage := 3, mainSocket := Some m'\<rparr>)))
          else if stage st = 3 then
            (case updatesSocket st of
               None \<Rightarrow> None
             | Some u \<Rightarrow>
                 (case sendRole encode NotebookUpdatesChannel u of
                    (Inl e, u') \<Rightarrow> Some (st\<lparr>updatesSocket := Some u', clientFailure := Some e\<rparr>)
                  | (Inr x, u') \<Rightarrow> Some (st\<lparr>stage := 4, updatesSocket := Some u'\<rparr>)))
          else None)"

fun connectClient_run ::
  "(channel_role \<Rightarrow> failure + byte list) \<Rightarrow> socket_channel \<Rightarrow> socket_channel
     \<Rightarrow> client_action list \<Rightarrow> client_state \<Rightarrow> client_state option" where
  "connectClient_run encode main updates [] st = Some st"
| "connectClient_run encode main updates (a # as) st =
     (case connectClient_step encode main updates a st of
        None \<Rightarrow> None
      | Some st' \<Rightarrow> connectClient_run encode main updates as st')"

section \<open>The client: its streams\<close>

record socket_transport_client =
  clientChannels :: channels
  clientClosed :: promise

text \<open>
  Modelled from the spec: \<^verbatim>\<open>decode.pipe\<close> and the codecs of \<^verbatim>\<open>RemoteRequest\<close> and
  \<^verbatim>\<open>NotebookUpdate\<close> are defined in other files. The spec has each frame decoded as
  one message, and a decoding error end the stream it occurs in with a decoding failure.
  \<open>decode\<close> is the codec's decoder, a parameter.
\<close>

fun decodePipe :: "(byte list \<Rightarrow> 'a option) \<Rightarrow> byte list step \<Rightarrow> 'a step" where
  "decodePipe decode (Emit buf) = (case decode buf of Some a \<Rightarrow> Emit a | None \<Rightarrow> Raise DecodingError)"
| "decodePipe decode Done = Done"
| "decodePipe decode (Raise e) = Raise e"

text \<open>
  \<^verbatim>\<open>requestStream\<close>: the \<open>bitVectors\<close> of the main channel through the decoder
  (\<^verbatim>\<open>translate(logError(...))\<close> only logs).
\<close>

definition requestStream ::
  "(byte list \<Rightarrow> 'req option) \<Rightarrow> socket_transport_client \<Rightarrow> ('req step \<times> socket_transport_client) option" where
  "requestStream decode c =
     (case bitVectors (mainChannel (clientChannels c)) of
        None \<Rightarrow> None
      | Some (x, m') \<Rightarrow>
          Some (decodePipe decode x, c\<lparr>clientChannels := (clientChannels c)\<lparr>mainChannel := m'\<rparr>\<rparr>))"

text \<open>\<^verbatim>\<open>updateStream\<close>: the same on the notebook-updates channel.\<close>

definition updateStream ::
  "(byte list \<Rightarrow> 'upd option) \<Rightarrow> socket_transport_client \<Rightarrow> ('upd step \<times> socket_transport_client) option" where
  "updateStream decode c =
     (case bitVectors (notebookUpdatesChannel (clientChannels c)) of
        None \<Rightarrow> None
      | Some (x, u') \<Rightarrow>
          Some (decodePipe decode x, c\<lparr>clientChannels := (clientChannels c)\<lparr>notebookUpdatesChannel := u'\<rparr>\<rparr>))"

text \<open>
  Modelled from the spec: \<^verbatim>\<open>terminateAfter\<close> is an extension method defined in
  another file. The spec has the stream deliver the element that satisfies the predicate
  and then terminate. The flag in the state records that this element has been delivered.
\<close>

definition terminateAfter ::
  "('a \<Rightarrow> bool) \<Rightarrow> ('s \<Rightarrow> ('a step \<times> 's) option) \<Rightarrow> bool \<times> 's \<Rightarrow> ('a step \<times> bool \<times> 's) option" where
  "terminateAfter p pull = (\<lambda>(finished, s).
     if finished then Some (Done, finished, s)
     else (case pull s of
             None \<Rightarrow> None
           | Some (Emit a, s') \<Rightarrow> Some (Emit a, p a, s')
           | Some (x, s') \<Rightarrow> Some (x, finished, s')))"

text \<open>
  Modelled from the spec: \<^verbatim>\<open>interruptAndIgnoreWhen\<close> is an extension method defined
  in another file. The spec has the stream terminate when the closed latch fires; the
  latch is looked at before each pull.
\<close>

definition interruptAndIgnoreWhen ::
  "('s \<Rightarrow> promise) \<Rightarrow> ('s \<Rightarrow> ('a step \<times> 's) option) \<Rightarrow> 's \<Rightarrow> ('a step \<times> 's) option" where
  "interruptAndIgnoreWhen latch pull s = (if latch s \<noteq> Pending then Some (Done, s) else pull s)"

text \<open>
  \<^verbatim>\<open>requests = requestStream.terminateAfter(_.isInstanceOf[ShutdownRequest])\<close>, with the
  type test a parameter, and \<^verbatim>\<open>updates = updateStream.interruptAndIgnoreWhen(closed)\<close>.
\<close>

definition requests ::
  "('req \<Rightarrow> bool) \<Rightarrow> (byte list \<Rightarrow> 'req option) \<Rightarrow> bool \<times> socket_transport_client
     \<Rightarrow> ('req step \<times> bool \<times> socket_transport_client) option" where
  "requests isShutdownRequest decode = terminateAfter isShutdownRequest (requestStream decode)"

definition updates ::
  "(byte list \<Rightarrow> 'upd option) \<Rightarrow> socket_transport_client \<Rightarrow> ('upd step \<times> socket_transport_client) option" where
  "updates decode = interruptAndIgnoreWhen clientClosed (updateStream decode)"

section \<open>Example channels\<close>

text \<open>
  A channel that has just been opened, with the bytes its peer will send and the scripts of
  its reads and writes; the examples below are built from it.
\<close>

definition fresh_channel :: "byte list \<Rightarrow> os_read list \<Rightarrow> io_exception option list \<Rightarrow> socket_channel" where
  "fresh_channel bs rs ws = \<lparr>incoming = bs, reads = rs, outgoing = [], writes = ws, isOpen = True\<rparr>"

text \<open>
  A codec for the role tags, for the examples: one byte, 0 for the main channel and 1 for
  the notebook-updates channel.
\<close>

definition example_decodeBuffer :: "byte list \<Rightarrow> failure + channel_role" where
  "example_decodeBuffer buf =
     (if buf = [0] then Inr MainChannel
      else if buf = [1] then Inr NotebookUpdatesChannel
      else Inl DecodingError)"

text \<open>A listener with the connections that will arrive.\<close>

definition example_listener :: "(nat \<times> socket_channel) list \<Rightarrow> server_socket_channel" where
  "example_listener cs = \<lparr>localAddress = (''10.0.0.1'', 4000), pending = cs\<rparr>"

text \<open>The matching encoder of the role tags.\<close>

definition example_encode :: "channel_role \<Rightarrow> failure + byte list" where
  "example_encode role = (case role of MainChannel \<Rightarrow> Inr [0] | NotebookUpdatesChannel \<Rightarrow> Inr [1])"

text \<open>
  Messages for the examples: a request is one byte, the byte 255 being the shutdown
  request; an update is its own bytes.
\<close>

datatype example_request = ExecuteRequest byte | ShutdownRequest

definition example_decodeRequest :: "byte list \<Rightarrow> example_request option" where
  "example_decodeRequest buf =
     (if buf = [255] then Some ShutdownRequest
      else case buf of [b] \<Rightarrow> Some (ExecuteRequest b) | _ \<Rightarrow> None)"

definition example_isShutdownRequest :: "example_request \<Rightarrow> bool" where
  "example_isShutdownRequest r = (r = ShutdownRequest)"

definition example_decodeUpdate :: "byte list \<Rightarrow> byte list option" where
  "example_decodeUpdate buf = Some buf"

definition example_client :: "byte list \<Rightarrow> byte list \<Rightarrow> promise \<Rightarrow> socket_transport_client" where
  "example_client mainBytes updateBytes latch =
     \<lparr>clientChannels =
        \<lparr>mainChannel = FramedSocket_apply (fresh_channel mainBytes [] []),
         notebookUpdatesChannel = FramedSocket_apply (fresh_channel updateBytes [] []),
         address = (''10.0.0.1'', 4000)\<rparr>,
      clientClosed = latch\<rparr>"

section \<open>The wire while the client connects\<close>

text \<open>
  What a socket has sent: only keepalives so far, or keepalives, the frame of the tag, and
  keepalives again. \<open>wireInvariant\<close> ties this to the stage \<^verbatim>\<open>connectClient\<close> has reached.
\<close>

definition onlyKeepalives :: "byte list \<Rightarrow> bool" where
  "onlyKeepalives bs = (\<exists>k. bs = concat (replicate k (frame [])))"

definition tagLeads :: "byte list \<Rightarrow> byte list \<Rightarrow> bool" where
  "tagLeads tag bs = (\<exists>k j. bs = concat (replicate k (frame [])) @ frame tag @ concat (replicate j (frame [])))"

definition wireInvariant :: "byte list \<Rightarrow> byte list \<Rightarrow> client_state \<Rightarrow> bool" where
  "wireInvariant mainTag updatesTag st =
     (stage st \<le> 4 \<and> (clientFailure st \<noteq> None \<longrightarrow> stage st < 4) \<and>
      (clientFailure st = None \<longrightarrow>
         (case mainSocket st of
            None \<Rightarrow> stage st = 0
          | Some m \<Rightarrow> 0 < stage st \<and>
              (if stage st \<le> 2 then onlyKeepalives (outgoing (socketChannel m))
               else tagLeads mainTag (outgoing (socketChannel m)))) \<and>
         (case updatesSocket st of
            None \<Rightarrow> stage st \<le> 1
          | Some u \<Rightarrow> 1 < stage st \<and>
              (if stage st \<le> 3 then onlyKeepalives (outgoing (socketChannel u))
               else tagLeads updatesTag (outgoing (socketChannel u))))))"

section \<open>Channels that deliver\<close>

text \<open>
  The properties of reading are stated for a channel that is open and whose reads do not
  throw: every scripted read delivers some number of bytes, possibly fewer than asked for,
  possibly none.
\<close>

fun isDeliver :: "os_read \<Rightarrow> bool" where
  "isDeliver (Deliver n) = True"
| "isDeliver (ReadFails e) = False"

definition undisturbed :: "socket_channel \<Rightarrow> bool" where
  "undisturbed ch = (isOpen ch \<and> list_all isDeliver (reads ch))"

text \<open>
  \<open>advanced s rest s'\<close>: \<open>s'\<close> is \<open>s\<close> after reads that have left \<open>rest\<close> unread;
  nothing but the unread bytes and the script of the reads has changed.
\<close>

definition advanced :: "framed_socket \<Rightarrow> byte list \<Rightarrow> framed_socket \<Rightarrow> bool" where
  "advanced s rest s' =
     (\<exists>rs. list_all isDeliver rs \<and> s' = s\<lparr>socketChannel := (socketChannel s)\<lparr>incoming := rest, reads := rs\<rparr>\<rparr>)"

section \<open>The length field round-trips\<close>

lemma getInt4: "getInt [a, b, c, d] = push_bit 24 (ucast a) OR push_bit 16 (ucast b) OR push_bit 8 (ucast c) OR ucast d"
  unfolding getInt_def by (simp add: push_bit_or push_bit_push_bit ac_simps)

lemma getInt_putInt: "getInt (putInt w) = w"
proof (rule bit_word_eqI)
  fix n
  assume n: "n < LENGTH(32)"
  consider "n < 8" | "8 \<le> n" "n < 16" | "16 \<le> n" "n < 24" | "24 \<le> n"
    by linarith
  then show "bit (getInt (putInt w)) n = bit w n"
    using n unfolding putInt_def getInt4
    by cases (auto simp: bit_simps)
qed

lemma length_putInt: "length (putInt w) = 4"
  by (simp add: putInt_def)

section \<open>Reading: how the two loops fill their buffers\<close>

lemma channel_read_deliver:
  assumes "undisturbed ch" "incoming ch \<noteq> []" "0 < n"
  shows "\<exists>k\<le>n. channel_read ch n =
            (Inr (int (length (take k (incoming ch))), take k (incoming ch)),
             ch\<lparr>incoming := drop k (incoming ch), reads := tl (reads ch)\<rparr>)
          \<and> (k = 0 \<longrightarrow> reads ch \<noteq> [])"
proof (cases "reads ch")
  case Nil
  with assms show ?thesis
    by (intro exI[of _ n]) (simp add: channel_read_def deliver_def undisturbed_def)
next
  case (Cons ev rs)
  with assms obtain c where "ev = Deliver c"
    by (cases ev) (auto simp: undisturbed_def)
  with Cons assms show ?thesis
    by (intro exI[of _ "min c n"]) (simp add: channel_read_def deliver_def undisturbed_def)
qed

lemma channel_read_eof:
  assumes "undisturbed ch" "incoming ch = []"
  shows "channel_read ch n = (Inr (- 1, []), ch\<lparr>reads := tl (reads ch)\<rparr>)"
proof (cases "reads ch")
  case Nil
  with assms show ?thesis
    by (simp add: channel_read_def deliver_def undisturbed_def)
next
  case (Cons ev rs)
  with assms obtain c where "ev = Deliver c"
    by (cases ev) (auto simp: undisturbed_def)
  with Cons assms show ?thesis
    by (simp add: channel_read_def deliver_def undisturbed_def)
qed

lemma undisturbed_tl: "undisturbed ch \<Longrightarrow> undisturbed (ch\<lparr>incoming := bs, reads := tl (reads ch)\<rparr>)"
  by (cases "reads ch") (auto simp: undisturbed_def)

lemma readPayload_full:
  "undisturbed ch \<Longrightarrow> incoming ch = bs @ rest \<Longrightarrow> length buf + length bs = cap \<Longrightarrow>
   \<exists>rs. list_all isDeliver rs \<and>
        readPayload ch cap buf = Some (Inr (buf @ bs), ch\<lparr>incoming := rest, reads := rs\<rparr>)"
proof (induction "length bs + length (reads ch)" arbitrary: ch buf bs rule: less_induct)
  case less
  show ?case
  proof (cases "bs = []")
    case True
    with less.prems have "readPayload ch cap buf = Some (Inr (buf @ bs), ch\<lparr>incoming := rest, reads := reads ch\<rparr>)"
      by (subst readPayload.simps) simp
    with less.prems show ?thesis
      by (auto simp: undisturbed_def)
  next
    case False
    with less.prems have ne: "incoming ch \<noteq> []" and n: "0 < cap - length buf" and lt: "length buf < cap"
      by auto
    from channel_read_deliver [OF less.prems(1) ne n] obtain k where
      k: "k \<le> cap - length buf" "k = 0 \<longrightarrow> reads ch \<noteq> []" and
      rd: "channel_read ch (cap - length buf) =
            (Inr (int (length (take k (incoming ch))), take k (incoming ch)),
             ch\<lparr>incoming := drop k (incoming ch), reads := tl (reads ch)\<rparr>)"
      by blast
    let ?ch' = "ch\<lparr>incoming := drop k (incoming ch), reads := tl (reads ch)\<rparr>"
    from k less.prems have kb: "k \<le> length bs" by simp
    with less.prems have tk: "take k (incoming ch) = take k bs" and dr: "drop k (incoming ch) = drop k bs @ rest"
      by simp_all
    have step: "readPayload ch cap buf = readPayload ?ch' cap (buf @ take k bs)"
      using lt rd tk by (subst readPayload.simps) simp
    have m: "length (drop k bs) + length (reads ?ch') < length bs + length (reads ch)"
      using k(2) False by (cases "reads ch") auto
    have u: "undisturbed ?ch'"
      using less.prems(1) by (rule undisturbed_tl)
    have i: "incoming ?ch' = drop k bs @ rest"
      using dr by simp
    have l: "length (buf @ take k bs) + length (drop k bs) = cap"
      using kb less.prems by simp
    from less.hyps [OF m u i l] obtain rs where
      "list_all isDeliver rs"
      "readPayload ?ch' cap (buf @ take k bs) = Some (Inr ((buf @ take k bs) @ drop k bs), ?ch'\<lparr>incoming := rest, reads := rs\<rparr>)"
      by blast
    with step show ?thesis
      by auto
  qed
qed

lemma readPayload_starved:
  assumes "undisturbed ch" "length buf + length (incoming ch) < cap"
  shows "readPayload ch cap buf = None"
proof -
  have "\<not> (undisturbed ch \<and> length buf + length (incoming ch) < cap)"
    if ret: "readPayload ch cap buf = Some y" for y
  proof (rule readPayload.raw_induct
           [where P = "\<lambda>ch cap buf y. \<not> (undisturbed ch \<and> length buf + length (incoming ch) < cap)",
            OF _ ret], goal_cases)
    case (1 f ch cap buf y)
    show ?case
    proof
      assume a: "undisturbed ch \<and> length buf + length (incoming ch) < cap"
      then have lt: "length buf < cap" and u: "undisturbed ch" by simp_all
      show False
      proof (cases "incoming ch = []")
        case True
        from channel_read_eof [OF u True] 1(2) lt
        have "f (ch\<lparr>reads := tl (reads ch)\<rparr>) cap buf = Some y"
          by simp
        moreover have "undisturbed (ch\<lparr>reads := tl (reads ch)\<rparr>)"
          using u by (cases "reads ch") (auto simp: undisturbed_def)
        ultimately show False
          using 1(1) a True by fastforce
      next
        case False
        from lt have n: "0 < cap - length buf" by simp
        from channel_read_deliver [OF u False n] obtain k where
          rd: "channel_read ch (cap - length buf) =
            (Inr (int (length (take k (incoming ch))), take k (incoming ch)),
             ch\<lparr>incoming := drop k (incoming ch), reads := tl (reads ch)\<rparr>)"
          by blast
        with 1(2) lt
        have "f (ch\<lparr>incoming := drop k (incoming ch), reads := tl (reads ch)\<rparr>) cap (buf @ take k (incoming ch)) = Some y"
          by simp
        from 1(1) [OF this] undisturbed_tl [OF u] a
        show False by (simp add: min_def split: if_splits)
      qed
    qed
  qed
  with assms show ?thesis
    by (cases "readPayload ch cap buf") auto
qed


lemma readLength_full:
  "undisturbed ch \<Longrightarrow> incoming ch = bs @ rest \<Longrightarrow> length buf + length bs = 4 \<Longrightarrow>
   \<exists>rs. list_all isDeliver rs \<and>
        readLength ch buf = (Inr (Some (buf @ bs)), ch\<lparr>incoming := rest, reads := rs\<rparr>)"
proof (induction "length bs + length (reads ch)" arbitrary: ch buf bs rule: less_induct)
  case less
  show ?case
  proof (cases "bs = []")
    case True
    with less.prems have "readLength ch buf = (Inr (Some (buf @ bs)), ch\<lparr>incoming := rest, reads := reads ch\<rparr>)"
      by (subst readLength.simps) simp
    with less.prems show ?thesis
      by (auto simp: undisturbed_def)
  next
    case False
    then have "0 < length bs" by simp
    with less.prems(3) have lt: "length buf < 4" and n: "0 < 4 - length buf"
      by linarith+
    from False less.prems have ne: "incoming ch \<noteq> []"
      by simp
    from channel_read_deliver [OF less.prems(1) ne n] obtain k where
      k: "k \<le> 4 - length buf" "k = 0 \<longrightarrow> reads ch \<noteq> []" and
      rd: "channel_read ch (4 - length buf) =
            (Inr (int (length (take k (incoming ch))), take k (incoming ch)),
             ch\<lparr>incoming := drop k (incoming ch), reads := tl (reads ch)\<rparr>)"
      by blast
    let ?ch' = "ch\<lparr>incoming := drop k (incoming ch), reads := tl (reads ch)\<rparr>"
    from k less.prems have kb: "k \<le> length bs" by simp
    with less.prems have tk: "take k (incoming ch) = take k bs" and dr: "drop k (incoming ch) = drop k bs @ rest"
      by simp_all
    have step: "readLength ch buf = readLength ?ch' (buf @ take k bs)"
      using lt rd tk by (subst readLength.simps) simp
    have m: "length (drop k bs) + length (reads ?ch') < length bs + length (reads ch)"
      using k(2) False by (cases "reads ch") auto
    have u: "undisturbed ?ch'"
      using less.prems(1) by (rule undisturbed_tl)
    have i: "incoming ?ch' = drop k bs @ rest"
      using dr by simp
    have l: "length (buf @ take k bs) + length (drop k bs) = 4"
      using kb less.prems by simp
    from less.hyps [OF m u i l] obtain rs where
      "list_all isDeliver rs"
      "readLength ?ch' (buf @ take k bs) = (Inr (Some ((buf @ take k bs) @ drop k bs)), ?ch'\<lparr>incoming := rest, reads := rs\<rparr>)"
      by blast
    with step show ?thesis
      by auto
  qed
qed

lemma readLength_starved:
  "undisturbed ch \<Longrightarrow> length buf + length (incoming ch) < 4 \<Longrightarrow>
   \<exists>rs. list_all isDeliver rs \<and> readLength ch buf = (Inr None, ch\<lparr>incoming := [], reads := rs\<rparr>)"
proof (induction "length (incoming ch) + length (reads ch)" arbitrary: ch buf rule: less_induct)
  case less
  from less.prems have lt: "length buf < 4" and n: "0 < 4 - length buf"
    by simp_all
  show ?case
  proof (cases "incoming ch = []")
    case True
    from channel_read_eof [OF less.prems(1) True] lt
    have "readLength ch buf = (Inr None, ch\<lparr>reads := tl (reads ch)\<rparr>)"
      by (subst readLength.simps) simp
    moreover have "list_all isDeliver (tl (reads ch))"
      using less.prems(1) by (cases "reads ch") (auto simp: undisturbed_def)
    moreover have "ch\<lparr>reads := tl (reads ch)\<rparr> = ch\<lparr>incoming := [], reads := tl (reads ch)\<rparr>"
      using True by simp
    ultimately have "list_all isDeliver (tl (reads ch)) \<and>
         readLength ch buf = (Inr None, ch\<lparr>incoming := [], reads := tl (reads ch)\<rparr>)"
      by simp
    then show ?thesis ..
  next
    case False
    from channel_read_deliver [OF less.prems(1) False n] obtain k where
      kn: "k \<le> 4 - length buf" and k: "k = 0 \<longrightarrow> reads ch \<noteq> []" and
      rd: "channel_read ch (4 - length buf) =
            (Inr (int (length (take k (incoming ch))), take k (incoming ch)),
             ch\<lparr>incoming := drop k (incoming ch), reads := tl (reads ch)\<rparr>)"
      by blast
    let ?ch' = "ch\<lparr>incoming := drop k (incoming ch), reads := tl (reads ch)\<rparr>"
    have step: "readLength ch buf = readLength ?ch' (buf @ take k (incoming ch))"
      using lt rd by (subst readLength.simps) simp
    have m: "length (incoming ?ch') + length (reads ?ch') < length (incoming ch) + length (reads ch)"
      using k False by (cases "reads ch") auto
    have u: "undisturbed ?ch'"
      using less.prems(1) by (rule undisturbed_tl)
    have l: "length (buf @ take k (incoming ch)) + length (incoming ?ch') < 4"
      using less.prems(2) by (simp add: min_def)
    from less.hyps [OF m u l] step show ?thesis
      by auto
  qed
qed

section \<open>Reading: the cases of \<open>readBuffer\<close>\<close>

lemma readLength_header:
  assumes "undisturbed ch" "incoming ch = putInt L @ body"
  shows "\<exists>rs. list_all isDeliver rs \<and>
          readLength ch [] = (Inr (Some (putInt L)), ch\<lparr>incoming := body, reads := rs\<rparr>)"
  using readLength_full [OF assms, of "[]"] by (simp add: length_putInt)

lemma undisturbed_after:
  "undisturbed ch \<Longrightarrow> list_all isDeliver rs \<Longrightarrow> undisturbed (ch\<lparr>incoming := bs, reads := rs\<rparr>)"
  by (simp add: undisturbed_def)

lemma readBuffer_closed:
  assumes "undisturbed ch" "incoming ch = putInt L @ body" "L <s 0"
  shows "\<exists>rs. list_all isDeliver rs \<and>
          readBuffer ch = Some (Inr None, ch\<lparr>incoming := body, reads := rs\<rparr>)"
proof -
  from readLength_header [OF assms(1,2)] obtain rs where
    "list_all isDeliver rs" "readLength ch [] = (Inr (Some (putInt L)), ch\<lparr>incoming := body, reads := rs\<rparr>)"
    by blast
  with assms(3) show ?thesis
    by (auto simp: readBuffer_def getInt_putInt)
qed

lemma readBuffer_keepalive:
  assumes "undisturbed ch" "incoming ch = putInt 0 @ body"
  shows "\<exists>rs. list_all isDeliver rs \<and>
          readBuffer ch = Some (Inr (Some None), ch\<lparr>incoming := body, reads := rs\<rparr>)"
proof -
  from readLength_header [OF assms(1,2)] obtain rs where
    "list_all isDeliver rs" "readLength ch [] = (Inr (Some (putInt 0)), ch\<lparr>incoming := body, reads := rs\<rparr>)"
    by blast
  then show ?thesis
    by (auto simp: readBuffer_def getInt_putInt)
qed

lemma readBuffer_payload:
  assumes "undisturbed ch" "incoming ch = putInt L @ msg @ rest" "0 <s L" "length msg = nat (sint L)"
  shows "\<exists>rs. list_all isDeliver rs \<and>
          readBuffer ch = Some (Inr (Some (Some msg)), ch\<lparr>incoming := rest, reads := rs\<rparr>)"
proof -
  from readLength_header [OF assms(1,2)] obtain rs where
    rs: "list_all isDeliver rs" and
    hd: "readLength ch [] = (Inr (Some (putInt L)), ch\<lparr>incoming := msg @ rest, reads := rs\<rparr>)"
    by blast
  let ?ch' = "ch\<lparr>incoming := msg @ rest, reads := rs\<rparr>"
  have u: "undisturbed ?ch'"
    using assms(1) rs by (rule undisturbed_after)
  have "incoming ?ch' = msg @ rest" "length [] + length msg = nat (sint L)"
    using assms(4) by simp_all
  from readPayload_full [OF u this] obtain rs' where
    rs': "list_all isDeliver rs'" and
    pl: "readPayload ?ch' (nat (sint L)) [] = Some (Inr msg, ch\<lparr>incoming := rest, reads := rs'\<rparr>)"
    by auto
  from assms(3) have "\<not> L <s 0" "L \<noteq> 0"
    by (auto simp: word_sless_alt)
  with hd pl have "readBuffer ch = Some (Inr (Some (Some msg)), ch\<lparr>incoming := rest, reads := rs'\<rparr>)"
    by (simp add: readBuffer_def getInt_putInt)
  with rs' show ?thesis
    by blast
qed

lemma readBuffer_truncated:
  assumes "undisturbed ch" "incoming ch = putInt L @ body" "0 <s L" "length body < nat (sint L)"
  shows "readBuffer ch = None"
proof -
  from readLength_header [OF assms(1,2)] obtain rs where
    rs: "list_all isDeliver rs" and
    hd: "readLength ch [] = (Inr (Some (putInt L)), ch\<lparr>incoming := body, reads := rs\<rparr>)"
    by blast
  let ?ch' = "ch\<lparr>incoming := body, reads := rs\<rparr>"
  have u: "undisturbed ?ch'"
    using assms(1) rs by (rule undisturbed_after)
  have "length [] + length (incoming ?ch') < nat (sint L)"
    using assms(4) by simp
  from readPayload_starved [OF u this] have pl: "readPayload ?ch' (nat (sint L)) [] = None" .
  from assms(3) have "\<not> L <s 0" "L \<noteq> 0"
    by (auto simp: word_sless_alt)
  with hd pl show ?thesis
    by (simp add: readBuffer_def getInt_putInt)
qed

lemma readBuffer_short_header:
  assumes "undisturbed ch" "length (incoming ch) < 4"
  shows "\<exists>rs. list_all isDeliver rs \<and>
          readBuffer ch = Some (Inr None, ch\<lparr>incoming := [], reads := rs\<rparr>)"
proof -
  from readLength_starved [OF assms(1), of "[]"] assms(2) obtain rs where
    "list_all isDeliver rs" "readLength ch [] = (Inr None, ch\<lparr>incoming := [], reads := rs\<rparr>)"
    by auto
  then show ?thesis
    by (auto simp: readBuffer_def)
qed

section \<open>Reading one frame\<close>

lemma read_returns:
  "readBuffer (socketChannel s) = Some (Inr r, ch') \<Longrightarrow> read s = Some (Inr r, s\<lparr>socketChannel := ch'\<rparr>)"
  by (simp add: read_def)

lemma read_never_returns:
  "readBuffer (socketChannel s) = None \<Longrightarrow> read s = None"
  by (simp add: read_def)

lemma read_short_header:
  assumes "undisturbed (socketChannel s)" "length (incoming (socketChannel s)) < 4"
  shows "\<exists>rs. list_all isDeliver rs \<and>
          read s = Some (Inr None, s\<lparr>socketChannel := (socketChannel s)\<lparr>incoming := [], reads := rs\<rparr>\<rparr>)"
  using readBuffer_short_header [OF assms] by (auto dest: read_returns)

lemma putInt_minus_1: "putInt (- 1) = [255, 255, 255, 255]"
  unfolding putInt_def by code_simp

text \<open>
  Claim C2. Whatever bytes follow and however the operating system splits the reads, a
  \<open>read\<close> on a stream that starts with the four bytes of a length \<open>L\<close> returns \<^verbatim>\<open>None\<close>
  when \<open>L\<close> is negative, \<^verbatim>\<open>Some(None)\<close> when \<open>L\<close> is zero, and, when \<open>L\<close> is positive
  and the stream holds \<open>L\<close> more bytes, \<^verbatim>\<open>Some(Some(buf))\<close> with \<open>buf\<close> exactly these
  \<open>L\<close> bytes. It consumes the length and the payload and nothing after them.
\<close>

theorem read_decodes_frame:
  assumes "undisturbed (socketChannel s)" and "incoming (socketChannel s) = putInt L @ body"
  shows "(L <s 0 \<longrightarrow>
            (\<exists>rs. read s = Some (Inr None, s\<lparr>socketChannel := (socketChannel s)\<lparr>incoming := body, reads := rs\<rparr>\<rparr>))) \<and>
         (L = 0 \<longrightarrow>
            (\<exists>rs. read s = Some (Inr (Some None), s\<lparr>socketChannel := (socketChannel s)\<lparr>incoming := body, reads := rs\<rparr>\<rparr>))) \<and>
         (0 <s L \<and> nat (sint L) \<le> length body \<longrightarrow>
            (\<exists>rs. read s = Some (Inr (Some (Some (take (nat (sint L)) body))),
                                  s\<lparr>socketChannel := (socketChannel s)\<lparr>incoming := drop (nat (sint L)) body, reads := rs\<rparr>\<rparr>)))"
proof (intro conjI impI)
  assume "L <s 0"
  from readBuffer_closed [OF assms this] show
    "\<exists>rs. read s = Some (Inr None, s\<lparr>socketChannel := (socketChannel s)\<lparr>incoming := body, reads := rs\<rparr>\<rparr>)"
    by (auto dest: read_returns)
next
  assume "L = 0"
  with readBuffer_keepalive [OF assms(1), of body] assms(2) show
    "\<exists>rs. read s = Some (Inr (Some None), s\<lparr>socketChannel := (socketChannel s)\<lparr>incoming := body, reads := rs\<rparr>\<rparr>)"
    by (auto dest: read_returns)
next
  assume a: "0 <s L \<and> nat (sint L) \<le> length body"
  let ?n = "nat (sint L)"
  from a assms(2) have "incoming (socketChannel s) = putInt L @ take ?n body @ drop ?n body"
    and "length (take ?n body) = ?n"
    by simp_all
  from readBuffer_payload [OF assms(1) this(1) _ this(2)] a show
    "\<exists>rs. read s = Some (Inr (Some (Some (take ?n body))),
                        s\<lparr>socketChannel := (socketChannel s)\<lparr>incoming := drop ?n body, reads := rs\<rparr>\<rparr>)"
    by (auto dest: read_returns)
qed

text \<open>
  The three cases on concrete streams, the reads split into pieces of one, no and three
  bytes: a frame of two bytes followed by one more byte, a keepalive, and a length of
  \<open>-1\<close>.
\<close>

theorem read_decodes_frame_witness:
  "undisturbed (fresh_channel [0, 0, 0, 2, 7, 8, 9] [Deliver 1, Deliver 0, Deliver 3] []) \<and>
   [0, 0, 0, 2, 7, 8, 9] = putInt 2 @ [7, 8, 9] \<and> 0 <s (2 :: int32) \<and> nat (sint (2 :: int32)) \<le> length [7 :: byte, 8, 9] \<and>
   (\<exists>rs. read (FramedSocket_apply (fresh_channel [0, 0, 0, 2, 7, 8, 9] [Deliver 1, Deliver 0, Deliver 3] []))
         = Some (Inr (Some (Some [7, 8])), FramedSocket_apply (fresh_channel [9] rs []))) \<and>
   [0, 0, 0, 0, 5] = putInt 0 @ [5] \<and>
   (\<exists>rs. read (FramedSocket_apply (fresh_channel [0, 0, 0, 0, 5] [Deliver 1, Deliver 0, Deliver 3] []))
         = Some (Inr (Some None), FramedSocket_apply (fresh_channel [5] rs []))) \<and>
   [255, 255, 255, 255, 5] = putInt (- 1) @ [5] \<and> (- 1 :: int32) <s 0 \<and>
   (\<exists>rs. read (FramedSocket_apply (fresh_channel [255, 255, 255, 255, 5] [Deliver 1, Deliver 0, Deliver 3] []))
         = Some (Inr None, FramedSocket_apply (fresh_channel [5] rs [])))"
  using
    read_decodes_frame
      [of "FramedSocket_apply (fresh_channel [0, 0, 0, 2, 7, 8, 9] [Deliver 1, Deliver 0, Deliver 3] [])" 2 "[7, 8, 9]"]
    read_decodes_frame
      [of "FramedSocket_apply (fresh_channel [0, 0, 0, 0, 5] [Deliver 1, Deliver 0, Deliver 3] [])" 0 "[5]"]
    read_decodes_frame
      [of "FramedSocket_apply (fresh_channel [255, 255, 255, 255, 5] [Deliver 1, Deliver 0, Deliver 3] [])" "- 1" "[5]"]
  by (simp add: FramedSocket_apply_def fresh_channel_def undisturbed_def putInt_minus_1 putInt_def [of 2]
        putInt_def [of 0] word_sless_alt)

text \<open>
  Claim C3 asks that \<open>read\<close> return \<^verbatim>\<open>None\<close> wherever the stream ends early. In the length
  it does (\<open>read_short_header\<close>). In the payload it does not: the second loop of
  \<^verbatim>\<open>readBuffer\<close> does not look at what \<^verbatim>\<open>socketChannel.read\<close> returns, so at the end of
  the stream it runs for ever. Here the stream announces two bytes and ends after one, and
  \<open>read\<close> never returns.
\<close>

theorem read_truncated_payload_never_returns:
  "read (FramedSocket_apply (fresh_channel [0, 0, 0, 2, 7] [] [])) = None"
proof -
  let ?ch = "fresh_channel [0, 0, 0, 2, 7] [] []"
  have "undisturbed ?ch"
    by (simp add: undisturbed_def fresh_channel_def)
  moreover have "incoming ?ch = putInt 2 @ [7]"
    by (simp add: putInt_def fresh_channel_def)
  moreover have "0 <s (2 :: int32)" "length [7 :: byte] < nat (sint (2 :: int32))"
    by (simp_all add: word_sless_alt)
  ultimately have "readBuffer ?ch = None"
    by (rule readBuffer_truncated)
  then show ?thesis
    by (simp add: read_never_returns FramedSocket_apply_def)
qed

section \<open>Writing one frame\<close>

lemma sint_length: "n < 2 ^ 31 \<Longrightarrow> sint (word_of_nat n :: int32) = int n"
proof -
  assume n: "n < 2 ^ 31"
  have "sint (word_of_nat n :: int32) = signed_take_bit 31 (int n)"
    using sint_sbintrunc' [where 'a = 32, of "int n"] by simp
  also have "\<dots> = int n"
    using n by (intro signed_take_bit_int_eq_self) auto
  finally show ?thesis .
qed

lemma writeLoop_success:
  "writeLoop ch bs = (Inr u, ch') \<Longrightarrow> outgoing ch' = outgoing ch @ bs \<and> incoming ch' = incoming ch \<and> reads ch' = reads ch"
proof (induction ch bs rule: writeLoop.induct)
  case (1 ch bs)
  show ?case
  proof (cases "bs = []")
    case True
    with 1(2) show ?thesis
      by (simp add: writeLoop.simps)
  next
    case False
    with 1(2) obtain n ch1 where
      w: "channel_write ch bs = (Inr n, ch1)" and l: "writeLoop ch1 (drop (nat n) bs) = (Inr u, ch')"
      by (subst (asm) writeLoop.simps) (auto split: prod.splits sum.splits)
    from w have n: "n = int (length bs)" and o: "outgoing ch1 = outgoing ch @ bs"
      "incoming ch1 = incoming ch" "reads ch1 = reads ch"
      by (auto simp: channel_write_def split: if_splits list.splits option.splits)
    from 1(1) [OF False w [symmetric] refl l] n o show ?thesis
      by simp
  qed
qed

lemma write_msg_success:
  assumes "write_msg s msg = (Inr u, s')"
  shows "outgoing (socketChannel s') = outgoing (socketChannel s) @ frame msg"
proof -
  from assms obtain n ch1 ch2 x where
    a: "writeSize (socketChannel s) (word_of_nat (length msg)) = (Inr n, ch1)" and
    b: "writeLoop ch1 msg = (Inr x, ch2)" and c: "s' = s\<lparr>socketChannel := ch2\<rparr>"
    by (auto simp: write_msg_def writeFailed_def Let_def split: prod.splits sum.splits if_splits)
  from a have "outgoing ch1 = outgoing (socketChannel s) @ putInt (word_of_nat (length msg))"
    by (auto simp: writeSize_def channel_write_def split: if_splits list.splits option.splits)
  with writeLoop_success [OF b] c show ?thesis
    by (simp add: frame_def)
qed

text \<open>
  Claim C1, amended. When \<open>write_msg\<close> has succeeded on the sending socket and the bytes it
  has put on the wire are what the receiving socket has yet to read (followed by whatever
  is sent later), then for a payload \<open>p\<close> of 1 to \<open>2^31 - 1\<close> bytes the next \<open>read\<close> of
  the receiver returns exactly \<open>p\<close> and leaves exactly the later bytes unread, however the
  reads are split. For the empty \<open>p\<close> the frame written has length 0, and \<open>read\<close>
  returns \<^verbatim>\<open>Some(None)\<close>, the keepalive, not an empty payload.
\<close>

theorem write_then_read_round_trip:
  assumes w: "write_msg sender p = (Inr (), sender')"
    and u: "undisturbed (socketChannel receiver)"
    and i: "incoming (socketChannel receiver) =
              drop (length (outgoing (socketChannel sender))) (outgoing (socketChannel sender')) @ later"
    and n: "length p < 2 ^ 31"
  shows "(p \<noteq> [] \<longrightarrow>
            (\<exists>rs. read receiver =
               Some (Inr (Some (Some p)),
                     receiver\<lparr>socketChannel := (socketChannel receiver)\<lparr>incoming := later, reads := rs\<rparr>\<rparr>))) \<and>
         (p = [] \<longrightarrow>
            (\<exists>rs. read receiver =
               Some (Inr (Some None),
                     receiver\<lparr>socketChannel := (socketChannel receiver)\<lparr>incoming := later, reads := rs\<rparr>\<rparr>)))"
proof -
  let ?L = "word_of_nat (length p) :: int32"
  from write_msg_success [OF w] i
  have inc: "incoming (socketChannel receiver) = putInt ?L @ p @ later"
    by (simp add: frame_def)
  have s: "sint ?L = int (length p)"
    using n by (rule sint_length)
  show ?thesis
  proof (intro conjI impI)
    assume "p \<noteq> []"
    with s have "0 <s ?L" "length p = nat (sint ?L)"
      by (simp_all add: word_sless_alt)
    from readBuffer_payload [OF u inc this] show
      "\<exists>rs. read receiver =
          Some (Inr (Some (Some p)),
                receiver\<lparr>socketChannel := (socketChannel receiver)\<lparr>incoming := later, reads := rs\<rparr>\<rparr>)"
      by (auto dest: read_returns)
  next
    assume "p = []"
    with inc have "incoming (socketChannel receiver) = putInt 0 @ later"
      by simp
    from readBuffer_keepalive [OF u this] show
      "\<exists>rs. read receiver =
          Some (Inr (Some None),
                receiver\<lparr>socketChannel := (socketChannel receiver)\<lparr>incoming := later, reads := rs\<rparr>\<rparr>)"
      by (auto dest: read_returns)
  qed
qed

text \<open>A payload of two bytes, written and then read in pieces of three and two bytes.\<close>

theorem write_then_read_round_trip_witness:
  "write_msg (FramedSocket_apply (fresh_channel [] [] [])) [7, 8]
     = (Inr (), FramedSocket_apply ((fresh_channel [] [] [])\<lparr>outgoing := [0, 0, 0, 2, 7, 8]\<rparr>)) \<and>
   undisturbed (fresh_channel [0, 0, 0, 2, 7, 8, 0, 0, 0, 0] [Deliver 3, Deliver 2] []) \<and>
   length [7 :: byte, 8] < 2 ^ 31 \<and>
   (\<exists>rs. read (FramedSocket_apply (fresh_channel [0, 0, 0, 2, 7, 8, 0, 0, 0, 0] [Deliver 3, Deliver 2] []))
     = Some (Inr (Some (Some [7, 8])), FramedSocket_apply (fresh_channel [0, 0, 0, 0] rs [])))"
  using write_then_read_round_trip
    [of "FramedSocket_apply (fresh_channel [] [] [])"
        "[7, 8]"
        "FramedSocket_apply ((fresh_channel [] [] [])\<lparr>outgoing := [0, 0, 0, 2, 7, 8]\<rparr>)"
        "FramedSocket_apply (fresh_channel [0, 0, 0, 2, 7, 8, 0, 0, 0, 0] [Deliver 3, Deliver 2] [])"
        "[0, 0, 0, 0]"]
  by (simp add: write_msg_def writeSize_def channel_write_def writeLoop.simps putInt_def undisturbed_def
        FramedSocket_apply_def fresh_channel_def)

text \<open>
  Claim C1 as stated includes the payload of length 0. Written, it is the four bytes of a
  zero length; read, these are a keepalive: \<open>read\<close> returns \<^verbatim>\<open>Some(None)\<close> and no
  payload.
\<close>

theorem write_empty_then_read_counterexample:
  "write_msg (FramedSocket_apply (fresh_channel [] [] [])) []
     = (Inr (), FramedSocket_apply ((fresh_channel [] [] [])\<lparr>outgoing := [0, 0, 0, 0]\<rparr>)) \<and>
   read (FramedSocket_apply (fresh_channel [0, 0, 0, 0] [] []))
     = Some (Inr (Some None), FramedSocket_apply (fresh_channel [] [] [])) \<and>
   read (FramedSocket_apply (fresh_channel [0, 0, 0, 0] [] []))
     \<noteq> Some (Inr (Some (Some [])), FramedSocket_apply (fresh_channel [] [] []))"
  by (simp add: write_msg_def writeSize_def channel_write_def writeLoop.simps putInt_def
        read_def readBuffer_def readLength.simps channel_read_def deliver_def getInt_def
        FramedSocket_apply_def fresh_channel_def)

text \<open>
  Claim C10, amended. When \<open>write_msg\<close> fails, the socket is closed afterwards. If the
  exception is a \<^verbatim>\<open>ClosedChannelException\<close>, the latch is left exactly as \<open>close\<close> alone
  would leave it: a pending latch is completed with success, a completed latch stays as it
  is, and the exception of the write is not recorded. If it is any other exception, a
  pending latch is completed with that exception and a completed latch stays as it is.
\<close>

theorem write_failure_treats_latch_as_close:
  assumes "write_msg s msg = (Inl e, s')"
  shows "\<not> isOpen (socketChannel s') \<and>
         (isClosedChannelException e \<longrightarrow>
            closed s' = closed (close s) \<and>
            closed s' = (if closed s = Pending then Succeeded else closed s)) \<and>
         (\<not> isClosedChannelException e \<longrightarrow>
            closed s' = (if closed s = Pending then Failed e else closed s))"
  using assms
  by (auto simp: write_msg_def writeFailed_def close_def channel_close_def promise_succeed_def promise_fail_def Let_def
           split: prod.splits sum.splits if_splits promise.splits)

text \<open>
  Claim C10 as stated has the latch completed with success after every write that fails
  with a \<^verbatim>\<open>ClosedChannelException\<close>. After a keepalive has failed with an
  \<^verbatim>\<open>IOException\<close> the channel is closed and the latch has failed; the next write fails
  with \<^verbatim>\<open>ClosedChannelException\<close> and the latch is still failed with the
  \<^verbatim>\<open>IOException\<close>, whereas an orderly \<open>close\<close> leaves it succeeded.
\<close>

theorem write_after_failed_keepalive_counterexample:
  "keepaliveTick (FramedSocket_apply (fresh_channel [] [] [Some IOException]))
     = \<lparr>socketChannel = (fresh_channel [] [] [])\<lparr>isOpen := False\<rparr>, closed = Failed IOException\<rparr> \<and>
   write_msg \<lparr>socketChannel = (fresh_channel [] [] [])\<lparr>isOpen := False\<rparr>, closed = Failed IOException\<rparr> [7]
     = (Inl ClosedChannelException,
        \<lparr>socketChannel = (fresh_channel [] [] [])\<lparr>isOpen := False\<rparr>, closed = Failed IOException\<rparr>) \<and>
   isClosedChannelException ClosedChannelException \<and>
   Failed IOException \<noteq> Succeeded \<and>
   closed (close (FramedSocket_apply (fresh_channel [] [] []))) = Succeeded"
  by (simp add: keepaliveTick_def sendKeepalive_def write_msg_def writeSize_def channel_write_def
        writeFailed_def close_def channel_close_def promise_succeed_def promise_fail_def
        isClosedChannelException_def FramedSocket_apply_def fresh_channel_def)

text \<open>
  A write on a socket that has been closed, and a write whose second channel write throws
  an \<^verbatim>\<open>IOException\<close> while the latch is pending.
\<close>

theorem write_failure_treats_latch_as_close_witness:
  "write_msg (close (FramedSocket_apply (fresh_channel [] [] []))) [7]
     = (Inl ClosedChannelException, close (FramedSocket_apply (fresh_channel [] [] []))) \<and>
   isClosedChannelException ClosedChannelException \<and>
   \<not> isOpen (socketChannel (close (FramedSocket_apply (fresh_channel [] [] [])))) \<and>
   closed (close (FramedSocket_apply (fresh_channel [] [] []))) = Succeeded \<and>
   write_msg (FramedSocket_apply (fresh_channel [] [] [None, Some IOException])) [7]
     = (Inl IOException,
        \<lparr>socketChannel = (fresh_channel [] [] [])\<lparr>outgoing := [0, 0, 0, 1], isOpen := False\<rparr>, closed = Failed IOException\<rparr>) \<and>
   \<not> isClosedChannelException IOException \<and>
   closed (FramedSocket_apply (fresh_channel [] [] [None, Some IOException])) = Pending"
  using write_failure_treats_latch_as_close
    [of "close (FramedSocket_apply (fresh_channel [] [] []))" "[7]" ClosedChannelException
        "close (FramedSocket_apply (fresh_channel [] [] []))"]
    write_failure_treats_latch_as_close
    [of "FramedSocket_apply (fresh_channel [] [] [None, Some IOException])" "[7]" IOException
        "\<lparr>socketChannel = (fresh_channel [] [] [])\<lparr>outgoing := [0, 0, 0, 1], isOpen := False\<rparr>, closed = Failed IOException\<rparr>"]
  by (simp add: write_msg_def writeSize_def channel_write_def writeLoop.simps writeFailed_def close_def channel_close_def
        promise_succeed_def promise_fail_def isClosedChannelException_def FramedSocket_apply_def fresh_channel_def putInt_def)

section \<open>The stream of frames\<close>

lemma advanced_undisturbed:
  "advanced s rest s' \<Longrightarrow> undisturbed (socketChannel s) \<Longrightarrow>
   undisturbed (socketChannel s') \<and> incoming (socketChannel s') = rest \<and> closed s' = closed s"
  by (auto simp: advanced_def undisturbed_def)

lemma advanced_trans:
  "advanced s r1 s1 \<Longrightarrow> advanced s1 r2 s2 \<Longrightarrow> advanced s r2 s2"
  by (auto simp: advanced_def)

lemma read_keepalive:
  assumes "undisturbed (socketChannel s)" "incoming (socketChannel s) = frame [] @ rest"
  shows "\<exists>s1. read s = Some (Inr (Some None), s1) \<and> advanced s rest s1"
proof -
  from assms(2) have "incoming (socketChannel s) = putInt 0 @ rest"
    by (simp add: frame_def)
  from readBuffer_keepalive [OF assms(1) this] show ?thesis
    by (auto simp: advanced_def dest: read_returns)
qed

lemma read_payload:
  assumes "undisturbed (socketChannel s)" "incoming (socketChannel s) = frame p @ rest"
    "p \<noteq> []" "length p < 2 ^ 31"
  shows "\<exists>s1. read s = Some (Inr (Some (Some p)), s1) \<and> advanced s rest s1"
proof -
  let ?L = "word_of_nat (length p) :: int32"
  from assms(2) have inc: "incoming (socketChannel s) = putInt ?L @ p @ rest"
    by (simp add: frame_def)
  have "sint ?L = int (length p)"
    using assms(4) by (rule sint_length)
  with assms(3) have "0 <s ?L" "length p = nat (sint ?L)"
    by (simp_all add: word_sless_alt)
  from readBuffer_payload [OF assms(1) inc this] show ?thesis
    by (auto simp: advanced_def dest: read_returns)
qed

lemma read_end:
  assumes "undisturbed (socketChannel s)" "incoming (socketChannel s) = fin"
    "length fin < 4 \<or> (\<exists>L junk. fin = putInt L @ junk \<and> L <s 0)"
  shows "\<exists>s1 rest. read s = Some (Inr None, s1) \<and> advanced s rest s1"
  using assms(3)
proof
  assume "length fin < 4"
  with assms(2) have "length (incoming (socketChannel s)) < 4"
    by simp
  from read_short_header [OF assms(1) this] show ?thesis
    by (auto simp: advanced_def)
next
  assume "\<exists>L junk. fin = putInt L @ junk \<and> L <s 0"
  then obtain L junk where "fin = putInt L @ junk" "L <s 0"
    by blast
  with assms(2) readBuffer_closed [OF assms(1), of L junk] show ?thesis
    by (auto simp: advanced_def dest: read_returns)
qed

lemma bitVectors_keepalive:
  assumes "read s = Some (Inr (Some None), s1)"
  shows "bitVectors s = bitVectors s1"
  using assms by (subst bitVectors.simps) simp

lemma bitVectors_payload:
  assumes "read s = Some (Inr (Some (Some p)), s1)"
  shows "bitVectors s = Some (Emit p, s1)"
  using assms by (subst bitVectors.simps) simp

lemma bitVectors_end:
  assumes "read s = Some (Inr None, s1)"
  shows "bitVectors s = Some (Done, s1)"
  using assms by (subst bitVectors.simps) simp

lemma toList_cong_pull:
  assumes "pull s = pull s1"
  shows "toList pull s = toList pull s1"
  using assms by (simp add: toList.simps [of pull s] toList.simps [of pull s1])

lemma toList_Done: "pull s = Some (Done, s1) \<Longrightarrow> toList pull s = Some ([], None, s1)"
  by (subst toList.simps) simp

lemma toList_Raise: "pull s = Some (Raise e, s1) \<Longrightarrow> toList pull s = Some ([], Some e, s1)"
  by (subst toList.simps) simp

lemma toList_Emit:
  "pull s = Some (Emit a, s1) \<Longrightarrow> toList pull s1 = Some (as, r, s2) \<Longrightarrow> toList pull s = Some (a # as, r, s2)"
  by (subst toList.simps) simp

lemma bitVectors_never_raises: "bitVectors s \<noteq> Some (Raise e, s')"
proof
  assume ret: "bitVectors s = Some (Raise e, s')"
  have "\<forall>e s'. y \<noteq> (Raise e, s')" if "bitVectors s = Some y" for y
    by (rule bitVectors.raw_induct [where P = "\<lambda>s y. \<forall>e s'. y \<noteq> (Raise e, s')", OF _ that])
       (auto split: option.splits sum.splits prod.splits)
  from this [OF ret] show False
    by simp
qed

text \<open>
  Claim C7. Let the incoming bytes be the frames of \<open>ps\<close> in order, an empty payload
  standing for a keepalive, followed by an end: fewer than four bytes before the end of the
  stream, or a negative length and anything after it. Then the stream \<open>bitVectors\<close>, run to
  its end, delivers exactly the non-empty payloads of \<open>ps\<close>, in order; it ends without a
  failure and without touching the latch. (By \<open>bitVectors_never_raises\<close> it never fails,
  whatever the channel does.)
\<close>

theorem bitVectors_delivers_payloads:
  assumes "undisturbed (socketChannel s)"
    and "incoming (socketChannel s) = concat (map frame ps) @ fin"
    and "\<forall>p\<in>set ps. length p < 2 ^ 31"
    and "length fin < 4 \<or> (\<exists>L junk. fin = putInt L @ junk \<and> L <s 0)"
  shows "\<exists>s'. toList bitVectors s = Some (filter (\<lambda>p. p \<noteq> []) ps, None, s') \<and> closed s' = closed s"
  using assms(1-3)
proof (induction ps arbitrary: s)
  case Nil
  then have "incoming (socketChannel s) = fin"
    by simp
  from read_end [OF Nil(1) this assms(4)] obtain s1 rest where
    "read s = Some (Inr None, s1)" "advanced s rest s1"
    by blast
  with Nil(1) show ?case
    by (auto dest: bitVectors_end toList_Done advanced_undisturbed)
next
  case (Cons p ps)
  from Cons.prems have inc: "incoming (socketChannel s) = frame p @ (concat (map frame ps) @ fin)"
    and len: "length p < 2 ^ 31" and lens: "\<forall>p\<in>set ps. length p < 2 ^ 31"
    by simp_all
  show ?case
  proof (cases "p = []")
    case True
    from read_keepalive [OF Cons.prems(1)] inc True obtain s1 where
      r: "read s = Some (Inr (Some None), s1)" and a: "advanced s (concat (map frame ps) @ fin) s1"
      by blast
    from advanced_undisturbed [OF a Cons.prems(1)] Cons.IH [of s1] lens obtain s' where
      "toList bitVectors s1 = Some (filter (\<lambda>p. p \<noteq> []) ps, None, s')" "closed s' = closed s"
      by auto
    moreover have "toList bitVectors s = toList bitVectors s1"
      using bitVectors_keepalive [OF r] by (rule toList_cong_pull)
    ultimately show ?thesis
      using True by simp
  next
    case False
    from read_payload [OF Cons.prems(1) inc False len] obtain s1 where
      r: "read s = Some (Inr (Some (Some p)), s1)" and a: "advanced s (concat (map frame ps) @ fin) s1"
      by blast
    from advanced_undisturbed [OF a Cons.prems(1)] Cons.IH [of s1] lens obtain s' where
      "toList bitVectors s1 = Some (filter (\<lambda>p. p \<noteq> []) ps, None, s')" "closed s' = closed s"
      by auto
    with toList_Emit [of bitVectors s p s1] bitVectors_payload [OF r] False show ?thesis
      by simp
  qed
qed

text \<open>
  Two bytes, a keepalive, one byte, then a length of \<open>-1\<close> and a stray byte; the first
  read delivers two bytes, the second five.
\<close>

theorem bitVectors_delivers_payloads_witness:
  "undisturbed (fresh_channel ([0, 0, 0, 2, 7, 8] @ [0, 0, 0, 0] @ [0, 0, 0, 1, 9] @ [255, 255, 255, 255, 1])
                  [Deliver 2, Deliver 5] []) \<and>
   [0, 0, 0, 2, 7, 8] @ [0, 0, 0, 0] @ [0, 0, 0, 1, 9] @ [255, 255, 255, 255, 1]
     = concat (map frame [[7, 8], [], [9]]) @ [255, 255, 255, 255, 1] \<and>
   list_all (\<lambda>p. length p < 2 ^ 31) [[7 :: byte, 8], [], [9]] \<and>
   [255, 255, 255, 255, 1] = putInt (- 1) @ [1] \<and> (- 1 :: int32) <s 0 \<and>
   (\<exists>s'. toList bitVectors
            (FramedSocket_apply
               (fresh_channel ([0, 0, 0, 2, 7, 8] @ [0, 0, 0, 0] @ [0, 0, 0, 1, 9] @ [255, 255, 255, 255, 1])
                  [Deliver 2, Deliver 5] []))
          = Some ([[7, 8], [9]], None, s') \<and> closed s' = Pending)"
proof -
  let ?ch = "fresh_channel ([0, 0, 0, 2, 7, 8] @ [0, 0, 0, 0] @ [0, 0, 0, 1, 9] @ [255, 255, 255, 255, 1])
               [Deliver 2, Deliver 5] []"
  have h1: "undisturbed (socketChannel (FramedSocket_apply ?ch))"
    by (simp add: undisturbed_def fresh_channel_def FramedSocket_apply_def)
  have f: "[0, 0, 0, 2, 7, 8] @ [0, 0, 0, 0] @ [0, 0, 0, 1, 9] @ [255, 255, 255, 255, 1]
     = concat (map frame [[7, 8], [], [9]]) @ [255, 255, 255, 255, 1]"
    by (simp add: frame_def putInt_def)
  then have h2: "incoming (socketChannel (FramedSocket_apply ?ch))
                   = concat (map frame [[7, 8], [], [9]]) @ [255, 255, 255, 255, 1]"
    by (simp add: fresh_channel_def FramedSocket_apply_def)
  have h3: "\<forall>p\<in>set [[7 :: byte, 8], [], [9]]. length p < 2 ^ 31"
    and l: "list_all (\<lambda>p. length p < 2 ^ 31) [[7 :: byte, 8], [], [9]]"
    by simp_all
  have m: "[255, 255, 255, 255, 1] = putInt (- 1) @ [1]" "(- 1 :: int32) <s 0"
    by (simp_all add: putInt_minus_1 word_sless_alt)
  then have h4: "length [255 :: byte, 255, 255, 255, 1] < 4 \<or>
                 (\<exists>L junk. [255, 255, 255, 255, 1] = putInt L @ junk \<and> L <s 0)"
    by blast
  have u: "undisturbed ?ch"
    using h1 by (simp add: FramedSocket_apply_def)
  from bitVectors_delivers_payloads [OF h1 h2 h3 h4]
  have c: "\<exists>s'. toList bitVectors (FramedSocket_apply ?ch) = Some ([[7, 8], [9]], None, s') \<and> closed s' = Pending"
    by (simp add: FramedSocket_apply_def)
  show ?thesis
    by (intro conjI u f l m c)
qed

section \<open>The handshake\<close>

lemma identifyRead_skip:
  "read s = Some (Inr (Some None), s1) \<Longrightarrow> identifyRead s = identifyRead s1"
  by (subst identifyRead.simps) simp

lemma identifyRead_again:
  "read s = Some (Inr None, s1) \<Longrightarrow> identifyRead s = identifyRead s1"
  by (subst identifyRead.simps) simp

lemma identifyRead_payload:
  "read s = Some (Inr (Some (Some buf)), s1) \<Longrightarrow> identifyRead s = Some (Inr (Some (Some buf)), s1)"
  by (subst identifyRead.simps) simp

lemma identifyRead_first_frame:
  "undisturbed (socketChannel s) \<Longrightarrow>
   incoming (socketChannel s) = concat (replicate k (frame [])) @ frame t @ rest \<Longrightarrow>
   t \<noteq> [] \<Longrightarrow> length t < 2 ^ 31 \<Longrightarrow>
   \<exists>c. identifyRead s = Some (Inr (Some (Some t)), c) \<and> advanced s rest c"
proof (induction k arbitrary: s)
  case 0
  then have "incoming (socketChannel s) = frame t @ rest"
    by simp
  from read_payload [OF "0.prems"(1) this "0.prems"(3,4)] show ?case
    by (auto dest: identifyRead_payload)
next
  case (Suc k)
  then have "incoming (socketChannel s) = frame [] @ (concat (replicate k (frame [])) @ frame t @ rest)"
    by simp
  from read_keepalive [OF Suc.prems(1) this] obtain s1 where
    r: "read s = Some (Inr (Some None), s1)" and
    a: "advanced s (concat (replicate k (frame [])) @ frame t @ rest) s1"
    by blast
  from advanced_undisturbed [OF a Suc.prems(1)] Suc.IH [of s1] Suc.prems(3,4) obtain c where
    "identifyRead s1 = Some (Inr (Some (Some t)), c)" "advanced s1 rest c"
    by auto
  with identifyRead_skip [OF r] advanced_trans [OF a] show ?case
    by auto
qed

lemma identify_first_frame:
  assumes "undisturbed (socketChannel s)"
    "incoming (socketChannel s) = concat (replicate k (frame [])) @ frame t @ rest"
    "t \<noteq> []" "length t < 2 ^ 31"
  shows "\<exists>c. identify decodeBuffer s = Some (decodeBuffer t, c) \<and> advanced s rest c"
  using identifyRead_first_frame [OF assms] by (auto simp: identify_def)

lemma identifyRead_at_end_never_returns:
  assumes "undisturbed (socketChannel s)" "length (incoming (socketChannel s)) < 4"
  shows "identifyRead s = None"
proof -
  have "\<not> (undisturbed (socketChannel s) \<and> length (incoming (socketChannel s)) < 4)"
    if ret: "identifyRead s = Some y" for y
  proof (rule identifyRead.raw_induct
           [where P = "\<lambda>s y. \<not> (undisturbed (socketChannel s) \<and> length (incoming (socketChannel s)) < 4)",
            OF _ ret], goal_cases)
    case (1 f s y)
    show ?case
    proof
      assume a: "undisturbed (socketChannel s) \<and> length (incoming (socketChannel s)) < 4"
      with read_short_header [of s] obtain rs where
        rs: "list_all isDeliver rs" and
        r: "read s = Some (Inr None, s\<lparr>socketChannel := (socketChannel s)\<lparr>incoming := [], reads := rs\<rparr>\<rparr>)"
        by blast
      let ?s1 = "s\<lparr>socketChannel := (socketChannel s)\<lparr>incoming := [], reads := rs\<rparr>\<rparr>"
      from 1(2) r have "f ?s1 = Some y"
        by simp
      from 1(1) [OF this] a rs show False
        by (simp add: undisturbed_def)
    qed
  qed
  with assms show ?thesis
    by (cases "identifyRead s") auto
qed

lemma identify_at_end_never_returns:
  assumes "undisturbed (socketChannel s)" "length (incoming (socketChannel s)) < 4"
  shows "identify decodeBuffer s = None"
  using identifyRead_at_end_never_returns [OF assms] by (simp add: identify_def)

text \<open>
  Claim C4. When the tag decoded from the first payload frame of \<open>channel1\<close> is the main
  role and that of \<open>channel2\<close> the notebook-updates role, \<open>selectChannels\<close> makes the
  first socket the main channel and the second the notebook-updates channel; when the tags
  come the other way round, so does the assignment.
\<close>

theorem selectChannels_assigns_roles:
  assumes "identify decodeBuffer channel1 = Some (Inr r1, c1)"
    and "identify decodeBuffer channel2 = Some (Inr r2, c2)"
  shows "(r1 = MainChannel \<and> r2 = NotebookUpdatesChannel \<longrightarrow>
            selectChannels decodeBuffer channel1 channel2 addr =
              Some (Inr \<lparr>mainChannel = c1, notebookUpdatesChannel = c2, address = addr\<rparr>, c1, c2)) \<and>
         (r1 = NotebookUpdatesChannel \<and> r2 = MainChannel \<longrightarrow>
            selectChannels decodeBuffer channel1 channel2 addr =
              Some (Inr \<lparr>mainChannel = c2, notebookUpdatesChannel = c1, address = addr\<rparr>, c1, c2))"
  using assms by (simp add: selectChannels_def)

text \<open>
  One socket sends a keepalive and then the main tag (and a further byte), the other the
  notebook-updates tag; the sockets are handed over in both orders.
\<close>

theorem selectChannels_assigns_roles_witness:
  "\<exists>c1 c2.
     identify example_decodeBuffer (FramedSocket_apply (fresh_channel (frame [] @ frame [0] @ [9]) [Deliver 1] []))
       = Some (Inr MainChannel, c1) \<and>
     identify example_decodeBuffer (FramedSocket_apply (fresh_channel (frame [1]) [] []))
       = Some (Inr NotebookUpdatesChannel, c2) \<and>
     selectChannels example_decodeBuffer
         (FramedSocket_apply (fresh_channel (frame [] @ frame [0] @ [9]) [Deliver 1] []))
         (FramedSocket_apply (fresh_channel (frame [1]) [] [])) (''10.0.0.1'', 4000)
       = Some (Inr \<lparr>mainChannel = c1, notebookUpdatesChannel = c2, address = (''10.0.0.1'', 4000)\<rparr>, c1, c2) \<and>
     selectChannels example_decodeBuffer
         (FramedSocket_apply (fresh_channel (frame [1]) [] []))
         (FramedSocket_apply (fresh_channel (frame [] @ frame [0] @ [9]) [Deliver 1] [])) (''10.0.0.1'', 4000)
       = Some (Inr \<lparr>mainChannel = c1, notebookUpdatesChannel = c2, address = (''10.0.0.1'', 4000)\<rparr>, c2, c1) \<and>
     incoming (socketChannel c1) = [9]"
proof -
  let ?A = "FramedSocket_apply (fresh_channel (frame [] @ frame [0] @ [9]) [Deliver 1] [])"
  let ?B = "FramedSocket_apply (fresh_channel (frame [1]) [] [])"
  have uA: "undisturbed (socketChannel ?A)" and uB: "undisturbed (socketChannel ?B)"
    by (simp_all add: undisturbed_def FramedSocket_apply_def fresh_channel_def)
  have iA: "incoming (socketChannel ?A) = concat (replicate 1 (frame [])) @ frame [0] @ [9]"
    and iB: "incoming (socketChannel ?B) = concat (replicate 0 (frame [])) @ frame [1] @ []"
    by (simp_all add: FramedSocket_apply_def fresh_channel_def)
  from identify_first_frame [OF uA iA, of example_decodeBuffer] obtain c1 where
    c1: "identify example_decodeBuffer ?A = Some (Inr MainChannel, c1)" and a1: "advanced ?A [9] c1"
    by (auto simp: example_decodeBuffer_def)
  from identify_first_frame [OF uB iB, of example_decodeBuffer] obtain c2 where
    c2: "identify example_decodeBuffer ?B = Some (Inr NotebookUpdatesChannel, c2)"
    by (auto simp: example_decodeBuffer_def)
  from advanced_undisturbed [OF a1 uA] have "incoming (socketChannel c1) = [9]"
    by simp
  with c1 c2 selectChannels_assigns_roles [OF c1 c2, of "(''10.0.0.1'', 4000)"]
    selectChannels_assigns_roles [OF c2 c1, of "(''10.0.0.1'', 4000)"]
  show ?thesis
    by auto
qed




lemma identifyRead_no_tag_never_returns:
  "undisturbed (socketChannel s) \<Longrightarrow>
   incoming (socketChannel s) = concat (replicate k (frame [])) @ fin \<Longrightarrow> length fin < 4 \<Longrightarrow>
   identifyRead s = None"
proof (induction k arbitrary: s)
  case 0
  then show ?case
    by (simp add: identifyRead_at_end_never_returns)
next
  case (Suc k)
  then have "incoming (socketChannel s) = frame [] @ (concat (replicate k (frame [])) @ fin)"
    by simp
  from read_keepalive [OF Suc.prems(1) this] obtain s1 where
    r: "read s = Some (Inr (Some None), s1)" and
    a: "advanced s (concat (replicate k (frame [])) @ fin) s1"
    by blast
  from advanced_undisturbed [OF a Suc.prems(1)] Suc.IH [of s1] Suc.prems(3)
  have "identifyRead s1 = None"
    by simp
  with identifyRead_skip [OF r] show ?case
    by simp
qed

lemma identify_no_tag_never_returns:
  assumes "undisturbed (socketChannel s)"
    "incoming (socketChannel s) = concat (replicate k (frame [])) @ fin" "length fin < 4"
  shows "identify decodeBuffer s = None"
  using identifyRead_no_tag_never_returns [OF assms] by (simp add: identify_def)

lemma identify_failure_kind:
  assumes "identify decodeBuffer s = Some (Inl e, c)"
  shows "(\<exists>x. e = IO x) \<or> (\<exists>m. e = IllegalStateException m) \<or> (\<exists>buf. decodeBuffer buf = Inl e)"
  using assms
  by (auto simp: identify_def split: option.splits prod.splits sum.splits)

lemma selectChannels_failure_kind:
  assumes "selectChannels decodeBuffer channel1 channel2 addr = Some (Inl e, c1, c2)"
  shows "(\<exists>x. e = IO x) \<or> (\<exists>m. e = IllegalStateException m) \<or> (\<exists>buf. decodeBuffer buf = Inl e)"
proof -
  from assms obtain r1 r2 where
    i1: "identify decodeBuffer channel1 = Some (r1, c1)" and i2: "identify decodeBuffer channel2 = Some (r2, c2)"
    and r: "(case (r1, r2) of
               (Inl e, _) \<Rightarrow> (Inl e, c1, c2)
             | (_, Inl e) \<Rightarrow> (Inl e, c1, c2)
             | (Inr MainChannel, Inr NotebookUpdatesChannel) \<Rightarrow>
                 (Inr \<lparr>mainChannel = c1, notebookUpdatesChannel = c2, address = addr\<rparr>, c1, c2)
             | (Inr NotebookUpdatesChannel, Inr MainChannel) \<Rightarrow>
                 (Inr \<lparr>mainChannel = c2, notebookUpdatesChannel = c1, address = addr\<rparr>, c1, c2)
             | other \<Rightarrow> (Inl (IllegalStateException ''Illegal channel set''), c1, c2)) = (Inl e, c1, c2)"
    by (auto simp: selectChannels_def split: option.splits prod.splits sum.splits channel_role.splits)
  show ?thesis
  proof (cases r1)
    case (Inl e1)
    with r have "e = e1" by simp
    with Inl i1 identify_failure_kind [of decodeBuffer channel1 e c1] show ?thesis
      by simp
  next
    case (Inr x1)
    show ?thesis
    proof (cases r2)
      case (Inl e2)
      with Inr r have "e = e2" by (cases x1) simp_all
      with Inl i2 identify_failure_kind [of decodeBuffer channel2 e c2] show ?thesis
        by simp
    next
      case (Inr x2)
      with \<open>r1 = Inr x1\<close> r have "e = IllegalStateException ''Illegal channel set''"
        by (cases x1; cases x2) simp_all
      then show ?thesis
        by blast
    qed
  qed
qed

text \<open>
  Claim C6, amended. When one of the two connections has not arrived 3 minutes after the
  server began to wait for it (it never comes, or comes later), the construction fails
  with a timeout, and the process is left as it was deployed. Once both connections have
  been accepted in time, the construction cannot fail with a timeout, whether or not a
  first frame ever arrives (the decoder raising no timeout of its own): the timeout is on
  accepting the connection only. Nothing is stated for a connection that arrives at the
  very moment the timeout expires, where the code is a race.
\<close>

theorem timeout_is_on_accept_only:
  "((pending socketServer = [] \<or>
     (\<exists>d1 ch1 others. pending socketServer = (d1, ch1) # others \<and> d1 \<noteq> defaultTimeout \<and>
        (defaultTimeout < d1 \<or> others = [] \<or>
         (\<exists>d2 ch2 others2. others = (d2, ch2) # others2 \<and> defaultTimeout < d2)))) \<longrightarrow>
    (\<exists>w. deployAndServe decodeBuffer socketServer (Inr p) = Some (Inl TimeoutException, w) \<and>
         process w = Some p)) \<and>
   ((\<exists>d1 ch1 d2 ch2 others. pending socketServer = (d1, ch1) # (d2, ch2) # others \<and>
        d1 < defaultTimeout \<and> d2 < defaultTimeout) \<and>
    (\<forall>buf. decodeBuffer buf \<noteq> Inl TimeoutException) \<longrightarrow>
    (\<forall>w. deployAndServe decodeBuffer socketServer (Inr p) \<noteq> Some (Inl TimeoutException, w)))"
proof (intro conjI impI)
  assume "pending socketServer = [] \<or>
     (\<exists>d1 ch1 others. pending socketServer = (d1, ch1) # others \<and> d1 \<noteq> defaultTimeout \<and>
        (defaultTimeout < d1 \<or> others = [] \<or>
         (\<exists>d2 ch2 others2. others = (d2, ch2) # others2 \<and> defaultTimeout < d2)))"
  then show "\<exists>w. deployAndServe decodeBuffer socketServer (Inr p) = Some (Inl TimeoutException, w) \<and>
         process w = Some p"
    by (auto simp: deployAndServe_def startConnection_def split: list.splits)
next
  assume a: "(\<exists>d1 ch1 d2 ch2 others. pending socketServer = (d1, ch1) # (d2, ch2) # others \<and>
        d1 < defaultTimeout \<and> d2 < defaultTimeout) \<and>
    (\<forall>buf. decodeBuffer buf \<noteq> Inl TimeoutException)"
  then obtain d1 ch1 d2 ch2 others where
    p: "pending socketServer = (d1, ch1) # (d2, ch2) # others" "d1 < defaultTimeout" "d2 < defaultTimeout"
    by blast
  from a have nd: "\<forall>buf. decodeBuffer buf \<noteq> Inl TimeoutException"
    by blast
  show "\<forall>w. deployAndServe decodeBuffer socketServer (Inr p) \<noteq> Some (Inl TimeoutException, w)"
  proof (intro allI notI)
    fix w
    assume "deployAndServe decodeBuffer socketServer (Inr p) = Some (Inl TimeoutException, w)"
    with p obtain c1 c2 where
      "SocketTransportServer_apply decodeBuffer (localAddress (socketServer\<lparr>pending := others\<rparr>))
         (FramedSocket_apply ch1) (FramedSocket_apply ch2) p = Some (Inl TimeoutException, c1, c2)"
      by (auto simp: deployAndServe_def startConnection_def split: option.splits prod.splits)
    then have "selectChannels decodeBuffer (FramedSocket_apply ch1) (FramedSocket_apply ch2)
         (localAddress (socketServer\<lparr>pending := others\<rparr>)) = Some (Inl TimeoutException, c1, c2)"
      by (auto simp: SocketTransportServer_apply_def split: option.splits prod.splits sum.splits)
    from selectChannels_failure_kind [OF this] nd show False
      by auto
  qed
qed

text \<open>
  Claim C6 as stated has the construction fail with a timeout, and the child killed,
  whenever no first frame arrives in time. With no connection at all the construction
  fails with the timeout and the process is still alive. With both connections there
  after 10 and 20 milliseconds, one sending two keepalives and the other nothing before
  their streams end, no tag ever arrives and the construction does not fail with a
  timeout: it never returns.
\<close>

theorem timeout_counterexample:
  "deployAndServe example_decodeBuffer (example_listener []) (Inr Alive)
     = Some (Inl TimeoutException, \<lparr>listener = example_listener [], process = Some Alive, sockets = []\<rparr>) \<and>
   Alive \<noteq> kill Alive \<and>
   10 < defaultTimeout \<and> 20 < defaultTimeout \<and>
   deployAndServe example_decodeBuffer
     (example_listener [(10, fresh_channel (frame [] @ frame []) [] []), (20, fresh_channel [] [] [])]) (Inr Alive)
     = None"
proof -
  let ?A = "FramedSocket_apply (fresh_channel (frame [] @ frame []) [] [])"
  have "undisturbed (socketChannel ?A)" "incoming (socketChannel ?A) = concat (replicate 2 (frame [])) @ []"
    "length ([] :: byte list) < 4"
    by (simp_all add: undisturbed_def FramedSocket_apply_def fresh_channel_def numeral_2_eq_2)
  then have "identify example_decodeBuffer ?A = None"
    by (rule identify_no_tag_never_returns)
  then have "deployAndServe example_decodeBuffer
     (example_listener [(10, fresh_channel (frame [] @ frame []) [] []), (20, fresh_channel [] [] [])]) (Inr Alive)
     = None"
    by (simp add: deployAndServe_def startConnection_def example_listener_def defaultTimeout_def
          SocketTransportServer_apply_def selectChannels_def)
  moreover have "deployAndServe example_decodeBuffer (example_listener []) (Inr Alive)
     = Some (Inl TimeoutException, \<lparr>listener = example_listener [], process = Some Alive, sockets = []\<rparr>)"
    "Alive \<noteq> kill Alive" "10 < defaultTimeout" "20 < defaultTimeout"
    by (simp_all add: deployAndServe_def startConnection_def example_listener_def kill_def defaultTimeout_def)
  ultimately show ?thesis
    by simp
qed

text \<open>
  A second connection that comes after 200 seconds; and two connections in time, whose
  handshake then fails for another reason.
\<close>

theorem timeout_is_on_accept_only_witness:
  "pending (example_listener [(10, fresh_channel [] [] []), (200000, fresh_channel [] [] [])])
     = [(10, fresh_channel [] [] []), (200000, fresh_channel [] [] [])] \<and>
   10 \<noteq> defaultTimeout \<and> defaultTimeout < 200000 \<and>
   (\<exists>w. deployAndServe example_decodeBuffer
           (example_listener [(10, fresh_channel [] [] []), (200000, fresh_channel [] [] [])]) (Inr Alive)
         = Some (Inl TimeoutException, w) \<and> process w = Some Alive) \<and>
   pending (example_listener [(10, fresh_channel (frame [0]) [] []), (20, fresh_channel (frame [0]) [] [])])
     = [(10, fresh_channel (frame [0]) [] []), (20, fresh_channel (frame [0]) [] [])] \<and>
   10 < defaultTimeout \<and> 20 < defaultTimeout \<and>
   (\<forall>buf. example_decodeBuffer buf \<noteq> Inl TimeoutException) \<and>
   (\<forall>w. deployAndServe example_decodeBuffer
           (example_listener [(10, fresh_channel (frame [0]) [] []), (20, fresh_channel (frame [0]) [] [])]) (Inr Alive)
         \<noteq> Some (Inl TimeoutException, w))"
proof -
  let ?late = "example_listener [(10, fresh_channel [] [] []), (200000, fresh_channel [] [] [])]"
  let ?intime = "example_listener [(10, fresh_channel (frame [0]) [] []), (20, fresh_channel (frame [0]) [] [])]"
  have p: "pending ?late = [(10, fresh_channel [] [] []), (200000, fresh_channel [] [] [])]"
    and q: "pending ?intime = [(10, fresh_channel (frame [0]) [] []), (20, fresh_channel (frame [0]) [] [])]"
    by (simp_all add: example_listener_def)
  have d: "10 \<noteq> defaultTimeout" "defaultTimeout < 200000" "10 < defaultTimeout" "20 < defaultTimeout"
    by (simp_all add: defaultTimeout_def)
  have n: "\<forall>buf. example_decodeBuffer buf \<noteq> Inl TimeoutException"
    by (simp add: example_decodeBuffer_def)
  from p d have h1: "pending ?late = [] \<or>
     (\<exists>d1 ch1 others. pending ?late = (d1, ch1) # others \<and> d1 \<noteq> defaultTimeout \<and>
        (defaultTimeout < d1 \<or> others = [] \<or>
         (\<exists>d2 ch2 others2. others = (d2, ch2) # others2 \<and> defaultTimeout < d2)))"
    by simp
  from q d n have h2: "(\<exists>d1 ch1 d2 ch2 others. pending ?intime = (d1, ch1) # (d2, ch2) # others \<and>
        d1 < defaultTimeout \<and> d2 < defaultTimeout) \<and>
    (\<forall>buf. example_decodeBuffer buf \<noteq> Inl TimeoutException)"
    by simp
  from timeout_is_on_accept_only [of ?late example_decodeBuffer Alive] h1
  have a: "\<exists>w. deployAndServe example_decodeBuffer ?late (Inr Alive) = Some (Inl TimeoutException, w) \<and>
              process w = Some Alive"
    by blast
  from timeout_is_on_accept_only [of ?intime example_decodeBuffer Alive] h2
  have b: "\<forall>w. deployAndServe example_decodeBuffer ?intime (Inr Alive) \<noteq> Some (Inl TimeoutException, w)"
    by blast
  show ?thesis
    by (intro conjI p q d n a b)
qed

section \<open>The client connects\<close>

lemma keepalives_snoc: "concat (replicate k bs) @ bs = concat (replicate (Suc k) bs)"
  by (induction k) simp_all

lemma keepaliveTick_outgoing:
  "outgoing (socketChannel (keepaliveTick s)) = outgoing (socketChannel s) \<or>
   outgoing (socketChannel (keepaliveTick s)) = outgoing (socketChannel s) @ frame []"
  by (auto simp: keepaliveTick_def sendKeepalive_def writeSize_def channel_write_def channel_close_def frame_def
           split: prod.splits sum.splits if_splits list.splits option.splits)

lemma onlyKeepalives_tick:
  "onlyKeepalives (outgoing (socketChannel s)) \<Longrightarrow> onlyKeepalives (outgoing (socketChannel (keepaliveTick s)))"
proof -
  assume "onlyKeepalives (outgoing (socketChannel s))"
  then obtain k where k: "outgoing (socketChannel s) = concat (replicate k (frame []))"
    by (auto simp: onlyKeepalives_def)
  from keepaliveTick_outgoing [of s] show ?thesis
  proof
    assume "outgoing (socketChannel (keepaliveTick s)) = outgoing (socketChannel s)"
    with k show ?thesis
      unfolding onlyKeepalives_def by metis
  next
    assume "outgoing (socketChannel (keepaliveTick s)) = outgoing (socketChannel s) @ frame []"
    with k have "outgoing (socketChannel (keepaliveTick s)) = concat (replicate (Suc k) (frame []))"
      by (simp only: keepalives_snoc)
    then show ?thesis
      unfolding onlyKeepalives_def by blast
  qed
qed

lemma tagLeads_tick:
  "tagLeads t (outgoing (socketChannel s)) \<Longrightarrow> tagLeads t (outgoing (socketChannel (keepaliveTick s)))"
proof -
  assume "tagLeads t (outgoing (socketChannel s))"
  then obtain k j where
    k: "outgoing (socketChannel s) = concat (replicate k (frame [])) @ frame t @ concat (replicate j (frame []))"
    by (auto simp: tagLeads_def)
  from keepaliveTick_outgoing [of s] show ?thesis
  proof
    assume "outgoing (socketChannel (keepaliveTick s)) = outgoing (socketChannel s)"
    with k show ?thesis
      unfolding tagLeads_def by metis
  next
    assume "outgoing (socketChannel (keepaliveTick s)) = outgoing (socketChannel s) @ frame []"
    with k have "outgoing (socketChannel (keepaliveTick s))
        = concat (replicate k (frame [])) @ frame t @ (concat (replicate j (frame [])) @ frame [])"
      by simp
    then have "outgoing (socketChannel (keepaliveTick s))
        = concat (replicate k (frame [])) @ frame t @ concat (replicate (Suc j) (frame []))"
      by (simp only: keepalives_snoc)
    then show ?thesis
      unfolding tagLeads_def by blast
  qed
qed

lemma sendRole_success:
  assumes "sendRole encode role s = (Inr u, s')" "encode role = Inr t"
  shows "outgoing (socketChannel s') = outgoing (socketChannel s) @ frame t"
  using assms by (auto simp: sendRole_def split: prod.splits sum.splits dest: write_msg_success)

lemma onlyKeepalives_then_tag:
  "onlyKeepalives bs \<Longrightarrow> tagLeads t (bs @ frame t)"
proof -
  assume "onlyKeepalives bs"
  then obtain k where "bs = concat (replicate k (frame []))"
    by (auto simp: onlyKeepalives_def)
  then have "bs @ frame t = concat (replicate k (frame [])) @ frame t @ concat (replicate 0 (frame []))"
    by simp
  then show ?thesis
    unfolding tagLeads_def by blast
qed

lemma onlyKeepalives_Nil: "onlyKeepalives []"
  unfolding onlyKeepalives_def by (rule exI [of _ 0]) simp

lemma wireInvariant_step:
  assumes step: "connectClient_step encode mainCh updatesCh a st = Some st'"
    and fresh: "outgoing mainCh = []" "outgoing updatesCh = []"
    and enc: "encode MainChannel = Inr mainTag" "encode NotebookUpdatesChannel = Inr updatesTag"
    and inv: "wireInvariant mainTag updatesTag st"
  shows "wireInvariant mainTag updatesTag st'"
proof (cases a)
  case KeepaliveMain
  with step obtain m where m: "mainSocket st = Some m" and st': "st' = st\<lparr>mainSocket := Some (keepaliveTick m)\<rparr>"
    by (auto simp: connectClient_step_def split: option.splits)
  with inv show ?thesis
    by (auto simp: wireInvariant_def onlyKeepalives_tick tagLeads_tick split: option.splits if_splits)
next
  case KeepaliveUpdates
  with step obtain u where u: "updatesSocket st = Some u" and st': "st' = st\<lparr>updatesSocket := Some (keepaliveTick u)\<rparr>"
    by (auto simp: connectClient_step_def split: option.splits)
  with inv show ?thesis
    by (auto simp: wireInvariant_def onlyKeepalives_tick tagLeads_tick split: option.splits if_splits)
next
  case Step
  with step have nf: "clientFailure st = None"
    by (auto simp: connectClient_step_def split: if_splits)
  from inv have le: "stage st \<le> 4"
    by (simp add: wireInvariant_def)
  from Step step nf have ne4: "stage st \<noteq> 4"
    by (auto simp: connectClient_step_def split: if_splits)
  with le consider "stage st = 0" | "stage st = 1" | "stage st = 2" | "stage st = 3"
    by linarith
  then show ?thesis
  proof cases
    case 1
    with Step step nf inv fresh show ?thesis
      by (auto simp: connectClient_step_def wireInvariant_def FramedSocket_apply_def onlyKeepalives_Nil
               split: option.splits)
  next
    case 2
    with Step step nf inv fresh show ?thesis
      by (auto simp: connectClient_step_def wireInvariant_def FramedSocket_apply_def onlyKeepalives_Nil
               split: option.splits)
  next
    case 3
    with inv nf obtain m where m: "mainSocket st = Some m" and k: "onlyKeepalives (outgoing (socketChannel m))"
      by (auto simp: wireInvariant_def split: option.splits)
    show ?thesis
    proof (cases "sendRole encode MainChannel m")
      case (Pair r m')
      show ?thesis
      proof (cases r)
        case (Inl e)
        with Pair Step step nf 3 m have "st' = st\<lparr>mainSocket := Some m', clientFailure := Some e\<rparr>"
          by (simp add: connectClient_step_def)
        with 3 show ?thesis
          by (simp add: wireInvariant_def)
      next
        case (Inr x)
        with Pair Step step nf 3 m have st': "st' = st\<lparr>stage := 3, mainSocket := Some m'\<rparr>"
          by (simp add: connectClient_step_def)
        from Pair Inr enc(1) have "outgoing (socketChannel m') = outgoing (socketChannel m) @ frame mainTag"
          by (auto dest: sendRole_success)
        with k have "tagLeads mainTag (outgoing (socketChannel m'))"
          by (simp add: onlyKeepalives_then_tag)
        with st' inv nf 3 show ?thesis
          by (auto simp: wireInvariant_def split: option.splits)
      qed
    qed
  next
    case 4
    with inv nf obtain u where u: "updatesSocket st = Some u" and k: "onlyKeepalives (outgoing (socketChannel u))"
      by (auto simp: wireInvariant_def split: option.splits)
    show ?thesis
    proof (cases "sendRole encode NotebookUpdatesChannel u")
      case (Pair r u')
      show ?thesis
      proof (cases r)
        case (Inl e)
        with Pair Step step nf 4 u have "st' = st\<lparr>updatesSocket := Some u', clientFailure := Some e\<rparr>"
          by (simp add: connectClient_step_def)
        with 4 show ?thesis
          by (simp add: wireInvariant_def)
      next
        case (Inr x)
        with Pair Step step nf 4 u have st': "st' = st\<lparr>stage := 4, updatesSocket := Some u'\<rparr>"
          by (simp add: connectClient_step_def)
        from Pair Inr enc(2) have "outgoing (socketChannel u') = outgoing (socketChannel u) @ frame updatesTag"
          by (auto dest: sendRole_success)
        with k have "tagLeads updatesTag (outgoing (socketChannel u'))"
          by (simp add: onlyKeepalives_then_tag)
        with st' inv nf 4 show ?thesis
          by (auto simp: wireInvariant_def split: option.splits)
      qed
    qed
  qed
qed

lemma wireInvariant_run:
  "connectClient_run encode mainCh updatesCh schedule st = Some st' \<Longrightarrow>
   outgoing mainCh = [] \<Longrightarrow> outgoing updatesCh = [] \<Longrightarrow>
   encode MainChannel = Inr mainTag \<Longrightarrow> encode NotebookUpdatesChannel = Inr updatesTag \<Longrightarrow>
   wireInvariant mainTag updatesTag st \<Longrightarrow> wireInvariant mainTag updatesTag st'"
proof (induction schedule arbitrary: st)
  case Nil
  then show ?case by simp
next
  case (Cons a schedule)
  from Cons.prems(1) obtain st1 where
    s1: "connectClient_step encode mainCh updatesCh a st = Some st1" and
    r: "connectClient_run encode mainCh updatesCh schedule st1 = Some st'"
    by (auto split: option.splits)
  from wireInvariant_step [OF s1 Cons.prems(2-6)] have "wireInvariant mainTag updatesTag st1" .
  from Cons.IH [OF r Cons.prems(2-5) this] show ?case .
qed

text \<open>
  Claim C9, amended. Whatever the order in which the steps of \<^verbatim>\<open>connectClient\<close> and
  the rounds of the keepalive fibers happen, once \<^verbatim>\<open>connectClient\<close> has returned its
  client, each of the two fresh connections carries some keepalives, then the frame of its
  role tag, then keepalives: the tag is the first frame with a payload, and only keepalives
  can come before it.
\<close>

theorem tag_is_first_payload_frame:
  assumes "connectClient_run encode mainCh updatesCh schedule initialClient = Some st"
    and "stage st = 4"
    and "outgoing mainCh = []" and "outgoing updatesCh = []"
    and "encode MainChannel = Inr mainTag" and "encode NotebookUpdatesChannel = Inr updatesTag"
  shows "\<exists>m u k1 j1 k2 j2.
           mainSocket st = Some m \<and> updatesSocket st = Some u \<and>
           outgoing (socketChannel m) =
             concat (replicate k1 (frame [])) @ frame mainTag @ concat (replicate j1 (frame [])) \<and>
           outgoing (socketChannel u) =
             concat (replicate k2 (frame [])) @ frame updatesTag @ concat (replicate j2 (frame []))"
proof -
  have "wireInvariant mainTag updatesTag initialClient"
    by (simp add: wireInvariant_def initialClient_def)
  from wireInvariant_run [OF assms(1,3-6) this] assms(2) show ?thesis
    by (auto simp: wireInvariant_def tagLeads_def split: option.splits)
qed

text \<open>
  Claim C9 as stated allows no keepalive before the tag. The keepalive fiber of the main
  socket is forked when the socket is made, before the second connection is opened and
  before any tag is written; when it runs once in between, the main connection starts with
  a keepalive.
\<close>

theorem keepalive_before_tag_counterexample:
  "connectClient_run example_encode (fresh_channel [] [] []) (fresh_channel [] [] [])
     [Step, KeepaliveMain, Step, Step, Step] initialClient
   = Some \<lparr>stage = 4,
           mainSocket = Some (FramedSocket_apply ((fresh_channel [] [] [])\<lparr>outgoing := [0, 0, 0, 0] @ [0, 0, 0, 1, 0]\<rparr>)),
           updatesSocket = Some (FramedSocket_apply ((fresh_channel [] [] [])\<lparr>outgoing := [0, 0, 0, 1, 1]\<rparr>)),
           clientFailure = None\<rparr> \<and>
   example_encode MainChannel = Inr [0] \<and> frame [0] = [0, 0, 0, 1, 0] \<and>
   take 5 ([0, 0, 0, 0] @ [0, 0, 0, 1, 0 :: byte]) \<noteq> [0, 0, 0, 1, 0]"
  by (simp add: connectClient_step_def initialClient_def sendRole_def example_encode_def
        keepaliveTick_def sendKeepalive_def write_msg_def writeSize_def writeLoop.simps channel_write_def
        frame_def putInt_def FramedSocket_apply_def fresh_channel_def)

text \<open>A schedule with keepalives before and after the main tag and before the updates tag.\<close>

theorem tag_is_first_payload_frame_witness:
  "connectClient_run example_encode (fresh_channel [] [] []) (fresh_channel [] [] [])
     [Step, KeepaliveMain, Step, Step, KeepaliveMain, KeepaliveUpdates, Step] initialClient
   = Some \<lparr>stage = 4,
           mainSocket = Some (FramedSocket_apply
                               ((fresh_channel [] [] [])\<lparr>outgoing := frame [] @ frame [0] @ frame []\<rparr>)),
           updatesSocket = Some (FramedSocket_apply
                                  ((fresh_channel [] [] [])\<lparr>outgoing := frame [] @ frame [1]\<rparr>)),
           clientFailure = None\<rparr> \<and>
   outgoing (fresh_channel [] [] []) = [] \<and>
   example_encode MainChannel = Inr [0] \<and> example_encode NotebookUpdatesChannel = Inr [1] \<and>
   (\<exists>k1 j1 k2 j2.
      frame [] @ frame [0] @ frame [] = concat (replicate k1 (frame [])) @ frame [0] @ concat (replicate j1 (frame [])) \<and>
      frame [] @ frame [1] = concat (replicate k2 (frame [])) @ frame [1] @ concat (replicate j2 (frame [])))"
proof -
  let ?st = "\<lparr>stage = 4,
           mainSocket = Some (FramedSocket_apply
                               ((fresh_channel [] [] [])\<lparr>outgoing := frame [] @ frame [0] @ frame []\<rparr>)),
           updatesSocket = Some (FramedSocket_apply
                                  ((fresh_channel [] [] [])\<lparr>outgoing := frame [] @ frame [1]\<rparr>)),
           clientFailure = None\<rparr>"
  have run: "connectClient_run example_encode (fresh_channel [] [] []) (fresh_channel [] [] [])
     [Step, KeepaliveMain, Step, Step, KeepaliveMain, KeepaliveUpdates, Step] initialClient = Some ?st"
    by (simp add: connectClient_step_def initialClient_def sendRole_def example_encode_def
          keepaliveTick_def sendKeepalive_def write_msg_def writeSize_def writeLoop.simps channel_write_def
          frame_def putInt_def FramedSocket_apply_def fresh_channel_def)
  have st: "stage ?st = 4" and fresh: "outgoing (fresh_channel [] [] []) = []"
    and enc: "example_encode MainChannel = Inr [0]" "example_encode NotebookUpdatesChannel = Inr [1]"
    by (simp_all add: fresh_channel_def example_encode_def)
  from tag_is_first_payload_frame [OF run st fresh fresh enc]
  have c: "\<exists>k1 j1 k2 j2.
      frame [] @ frame [0] @ frame [] = concat (replicate k1 (frame [])) @ frame [0] @ concat (replicate j1 (frame [])) \<and>
      frame [] @ frame [1] = concat (replicate k2 (frame [])) @ frame [1] @ concat (replicate j2 (frame []))"
    by (simp add: FramedSocket_apply_def fresh_channel_def)
  show ?thesis
    by (intro conjI run fresh enc c)
qed

section \<open>The client's streams\<close>

lemma requestStream_skip:
  assumes "read (mainChannel (clientChannels c)) = Some (Inr (Some None), s1)"
  shows "requestStream decode c = requestStream decode (c\<lparr>clientChannels := (clientChannels c)\<lparr>mainChannel := s1\<rparr>\<rparr>)"
  using bitVectors_keepalive [OF assms] by (simp add: requestStream_def split: option.splits prod.splits)

lemma requestStream_emit:
  assumes "read (mainChannel (clientChannels c)) = Some (Inr (Some (Some p)), s1)" "decode p = Some r"
  shows "requestStream decode c = Some (Emit r, c\<lparr>clientChannels := (clientChannels c)\<lparr>mainChannel := s1\<rparr>\<rparr>)"
  using bitVectors_payload [OF assms(1)] assms(2) by (simp add: requestStream_def)

lemma updateStream_skip:
  assumes "read (notebookUpdatesChannel (clientChannels c)) = Some (Inr (Some None), s1)"
  shows "updateStream decode c = updateStream decode (c\<lparr>clientChannels := (clientChannels c)\<lparr>notebookUpdatesChannel := s1\<rparr>\<rparr>)"
  using bitVectors_keepalive [OF assms] by (simp add: updateStream_def split: option.splits prod.splits)

lemma updateStream_emit:
  assumes "read (notebookUpdatesChannel (clientChannels c)) = Some (Inr (Some (Some p)), s1)" "decode p = Some r"
  shows "updateStream decode c = Some (Emit r, c\<lparr>clientChannels := (clientChannels c)\<lparr>notebookUpdatesChannel := s1\<rparr>\<rparr>)"
  using bitVectors_payload [OF assms(1)] assms(2) by (simp add: updateStream_def)

lemma updateStream_done:
  assumes "read (notebookUpdatesChannel (clientChannels c)) = Some (Inr None, s1)"
  shows "updateStream decode c = Some (Done, c\<lparr>clientChannels := (clientChannels c)\<lparr>notebookUpdatesChannel := s1\<rparr>\<rparr>)"
  using bitVectors_end [OF assms] by (simp add: updateStream_def)

lemma requests_until_shutdown:
  "undisturbed (socketChannel (mainChannel (clientChannels c))) \<Longrightarrow>
   incoming (socketChannel (mainChannel (clientChannels c))) = concat (map frame ps) @ frame q @ later \<Longrightarrow>
   \<forall>p\<in>set ps. length p < 2 ^ 31 \<Longrightarrow>
   map decode (filter (\<lambda>p. p \<noteq> []) ps) = map Some rs \<Longrightarrow>
   \<forall>r\<in>set rs. \<not> isShutdownRequest r \<Longrightarrow>
   q \<noteq> [] \<Longrightarrow> length q < 2 ^ 31 \<Longrightarrow> decode q = Some rq \<Longrightarrow> isShutdownRequest rq \<Longrightarrow>
   \<exists>m. toList (requests isShutdownRequest decode) (False, c) =
          Some (rs @ [rq], None, True, c\<lparr>clientChannels := (clientChannels c)\<lparr>mainChannel := m\<rparr>\<rparr>) \<and>
        advanced (mainChannel (clientChannels c)) later m"
proof (induction ps arbitrary: c rs)
  case Nil
  let ?s = "mainChannel (clientChannels c)"
  from Nil have inc: "incoming (socketChannel ?s) = frame q @ later" and rs: "rs = []"
    by simp_all
  from read_payload [OF Nil.prems(1) inc Nil.prems(6,7)] obtain s1 where
    r: "read ?s = Some (Inr (Some (Some q)), s1)" and a: "advanced ?s later s1"
    by blast
  let ?c1 = "c\<lparr>clientChannels := (clientChannels c)\<lparr>mainChannel := s1\<rparr>\<rparr>"
  from requestStream_emit [of c q s1 decode rq] r Nil.prems(8,9)
  have "requests isShutdownRequest decode (False, c) = Some (Emit rq, True, ?c1)"
    by (simp add: requests_def terminateAfter_def)
  moreover have "requests isShutdownRequest decode (True, ?c1) = Some (Done, True, ?c1)"
    by (simp add: requests_def terminateAfter_def)
  then have "toList (requests isShutdownRequest decode) (True, ?c1) = Some ([], None, True, ?c1)"
    by (rule toList_Done)
  ultimately have "toList (requests isShutdownRequest decode) (False, c) = Some ([rq], None, True, ?c1)"
    by (rule toList_Emit)
  with a rs show ?case
    by auto
next
  case (Cons p ps)
  let ?s = "mainChannel (clientChannels c)"
  let ?rest = "concat (map frame ps) @ frame q @ later"
  from Cons.prems have inc: "incoming (socketChannel ?s) = frame p @ ?rest"
    and len: "length p < 2 ^ 31" and lens: "\<forall>p\<in>set ps. length p < 2 ^ 31"
    by simp_all
  show ?case
  proof (cases "p = []")
    case True
    from read_keepalive [OF Cons.prems(1)] inc True obtain s1 where
      r: "read ?s = Some (Inr (Some None), s1)" and a: "advanced ?s ?rest s1"
      by blast
    let ?c1 = "c\<lparr>clientChannels := (clientChannels c)\<lparr>mainChannel := s1\<rparr>\<rparr>"
    from advanced_undisturbed [OF a Cons.prems(1)]
    have u1: "undisturbed (socketChannel (mainChannel (clientChannels ?c1)))"
      and i1: "incoming (socketChannel (mainChannel (clientChannels ?c1))) = ?rest"
      by simp_all
    from Cons.prems(4) True have d: "map decode (filter (\<lambda>p. p \<noteq> []) ps) = map Some rs"
      by simp
    from Cons.IH [OF u1 i1 lens d Cons.prems(5-9)] obtain m where
      t: "toList (requests isShutdownRequest decode) (False, ?c1) =
            Some (rs @ [rq], None, True, ?c1\<lparr>clientChannels := (clientChannels ?c1)\<lparr>mainChannel := m\<rparr>\<rparr>)"
      and am: "advanced (mainChannel (clientChannels ?c1)) later m"
      by blast
    from requestStream_skip [OF r, of decode]
    have "requests isShutdownRequest decode (False, c) = requests isShutdownRequest decode (False, ?c1)"
      by (simp add: requests_def terminateAfter_def)
    then have "toList (requests isShutdownRequest decode) (False, c) = toList (requests isShutdownRequest decode) (False, ?c1)"
      by (rule toList_cong_pull)
    with t have "toList (requests isShutdownRequest decode) (False, c) =
            Some (rs @ [rq], None, True, c\<lparr>clientChannels := (clientChannels c)\<lparr>mainChannel := m\<rparr>\<rparr>)"
      by simp
    moreover from am have "advanced ?s later m"
      using advanced_trans [OF a] by simp
    ultimately show ?thesis
      by blast
  next
    case False
    from read_payload [OF Cons.prems(1) inc False len] obtain s1 where
      r: "read ?s = Some (Inr (Some (Some p)), s1)" and a: "advanced ?s ?rest s1"
      by blast
    let ?c1 = "c\<lparr>clientChannels := (clientChannels c)\<lparr>mainChannel := s1\<rparr>\<rparr>"
    from advanced_undisturbed [OF a Cons.prems(1)]
    have u1: "undisturbed (socketChannel (mainChannel (clientChannels ?c1)))"
      and i1: "incoming (socketChannel (mainChannel (clientChannels ?c1))) = ?rest"
      by simp_all
    from Cons.prems(4) False obtain r0 rs' where
      rs: "rs = r0 # rs'" and d0: "decode p = Some r0" and d: "map decode (filter (\<lambda>p. p \<noteq> []) ps) = map Some rs'"
      by (cases rs) auto
    from Cons.prems(5) rs have ns: "\<not> isShutdownRequest r0" and nss: "\<forall>r\<in>set rs'. \<not> isShutdownRequest r"
      by simp_all
    from Cons.IH [OF u1 i1 lens d nss Cons.prems(6-9)] obtain m where
      t: "toList (requests isShutdownRequest decode) (False, ?c1) =
            Some (rs' @ [rq], None, True, ?c1\<lparr>clientChannels := (clientChannels ?c1)\<lparr>mainChannel := m\<rparr>\<rparr>)"
      and am: "advanced (mainChannel (clientChannels ?c1)) later m"
      by blast
    from requestStream_emit [of c p s1 decode r0] r d0 ns
    have "requests isShutdownRequest decode (False, c) = Some (Emit r0, False, ?c1)"
      by (simp add: requests_def terminateAfter_def)
    from toList_Emit [of "requests isShutdownRequest decode" "(False, c)", OF this t] rs
    have "toList (requests isShutdownRequest decode) (False, c) =
            Some (rs @ [rq], None, True, c\<lparr>clientChannels := (clientChannels c)\<lparr>mainChannel := m\<rparr>\<rparr>)"
      by simp
    moreover from am have "advanced ?s later m"
      using advanced_trans [OF a] by simp
    ultimately show ?thesis
      by blast
  qed
qed

lemma updates_until_end:
  "undisturbed (socketChannel (notebookUpdatesChannel (clientChannels c))) \<Longrightarrow>
   incoming (socketChannel (notebookUpdatesChannel (clientChannels c))) = concat (map frame ps) @ fin \<Longrightarrow>
   \<forall>p\<in>set ps. length p < 2 ^ 31 \<Longrightarrow>
   length fin < 4 \<or> (\<exists>L junk. fin = putInt L @ junk \<and> L <s 0) \<Longrightarrow>
   map decode (filter (\<lambda>p. p \<noteq> []) ps) = map Some us \<Longrightarrow>
   clientClosed c = Pending \<Longrightarrow>
   \<exists>c'. toList (updates decode) c = Some (us, None, c') \<and> clientClosed c' = Pending"
proof (induction ps arbitrary: c us)
  case Nil
  let ?s = "notebookUpdatesChannel (clientChannels c)"
  from Nil have "incoming (socketChannel ?s) = fin" and us: "us = []"
    by simp_all
  from read_end [OF Nil.prems(1) this(1) Nil.prems(4)] obtain s1 where
    "read ?s = Some (Inr None, s1)"
    by blast
  from updateStream_done [OF this, of decode] Nil.prems(6)
  have "updates decode c = Some (Done, c\<lparr>clientChannels := (clientChannels c)\<lparr>notebookUpdatesChannel := s1\<rparr>\<rparr>)"
    by (simp add: updates_def interruptAndIgnoreWhen_def)
  from toList_Done [of "updates decode" c, OF this] us Nil.prems(6) show ?case
    by simp
next
  case (Cons p ps)
  let ?s = "notebookUpdatesChannel (clientChannels c)"
  let ?rest = "concat (map frame ps) @ fin"
  from Cons.prems have inc: "incoming (socketChannel ?s) = frame p @ ?rest"
    and len: "length p < 2 ^ 31" and lens: "\<forall>p\<in>set ps. length p < 2 ^ 31"
    by simp_all
  show ?case
  proof (cases "p = []")
    case True
    from read_keepalive [OF Cons.prems(1)] inc True obtain s1 where
      r: "read ?s = Some (Inr (Some None), s1)" and a: "advanced ?s ?rest s1"
      by blast
    let ?c1 = "c\<lparr>clientChannels := (clientChannels c)\<lparr>notebookUpdatesChannel := s1\<rparr>\<rparr>"
    from advanced_undisturbed [OF a Cons.prems(1)]
    have u1: "undisturbed (socketChannel (notebookUpdatesChannel (clientChannels ?c1)))"
      and i1: "incoming (socketChannel (notebookUpdatesChannel (clientChannels ?c1))) = ?rest"
      by simp_all
    from Cons.prems(5) True have d: "map decode (filter (\<lambda>p. p \<noteq> []) ps) = map Some us"
      by simp
    from Cons.prems(6) have l1: "clientClosed ?c1 = Pending"
      by simp
    from Cons.IH [OF u1 i1 lens Cons.prems(4) d l1] obtain c' where
      t: "toList (updates decode) ?c1 = Some (us, None, c')" "clientClosed c' = Pending"
      by blast
    from updateStream_skip [OF r, of decode] Cons.prems(6)
    have "updates decode c = updates decode ?c1"
      by (simp add: updates_def interruptAndIgnoreWhen_def)
    then have "toList (updates decode) c = toList (updates decode) ?c1"
      by (rule toList_cong_pull)
    with t show ?thesis
      by simp
  next
    case False
    from read_payload [OF Cons.prems(1) inc False len] obtain s1 where
      r: "read ?s = Some (Inr (Some (Some p)), s1)" and a: "advanced ?s ?rest s1"
      by blast
    let ?c1 = "c\<lparr>clientChannels := (clientChannels c)\<lparr>notebookUpdatesChannel := s1\<rparr>\<rparr>"
    from advanced_undisturbed [OF a Cons.prems(1)]
    have u1: "undisturbed (socketChannel (notebookUpdatesChannel (clientChannels ?c1)))"
      and i1: "incoming (socketChannel (notebookUpdatesChannel (clientChannels ?c1))) = ?rest"
      by simp_all
    from Cons.prems(5) False obtain u0 us' where
      us: "us = u0 # us'" and d0: "decode p = Some u0" and d: "map decode (filter (\<lambda>p. p \<noteq> []) ps) = map Some us'"
      by (cases us) auto
    from Cons.prems(6) have l1: "clientClosed ?c1 = Pending"
      by simp
    from Cons.IH [OF u1 i1 lens Cons.prems(4) d l1] obtain c' where
      t: "toList (updates decode) ?c1 = Some (us', None, c')" and l: "clientClosed c' = Pending"
      by blast
    from updateStream_emit [of c p s1 decode u0] r d0 Cons.prems(6)
    have "updates decode c = Some (Emit u0, ?c1)"
      by (simp add: updates_def interruptAndIgnoreWhen_def)
    from toList_Emit [of "updates decode" c, OF this t] us l show ?thesis
      by simp
  qed
qed

lemma updates_latch_fired:
  assumes "clientClosed c \<noteq> Pending"
  shows "toList (updates decode) c = Some ([], None, c)"
proof -
  from assms have "updates decode c = Some (Done, c)"
    by (simp add: updates_def interruptAndIgnoreWhen_def)
  then show ?thesis
    by (rule toList_Done)
qed

text \<open>
  Claim C8, amended. Let the main channel carry the frames of some requests, none of them a
  shutdown request, then the frame of a shutdown request, then more; let the
  notebook-updates channel carry the frames of some updates up to its end; let the client's
  latch be pending. Then \<open>requests\<close>, run to its end, delivers those requests in order and
  the shutdown request last, and leaves what follows unread. Afterwards \<open>updates\<close> still
  delivers all its updates in order; it ends where the frames of its channel end, the latch
  still pending. With the latch fired, \<open>updates\<close> ends at once.
\<close>

theorem requests_end_at_shutdown_updates_go_on:
  assumes "undisturbed (socketChannel (mainChannel (clientChannels c)))"
    and "incoming (socketChannel (mainChannel (clientChannels c))) = concat (map frame ps) @ frame q @ later"
    and "\<forall>p\<in>set ps. length p < 2 ^ 31"
    and "map decodeRequest (filter (\<lambda>p. p \<noteq> []) ps) = map Some rs"
    and "\<forall>r\<in>set rs. \<not> isShutdownRequest r"
    and "q \<noteq> []" and "length q < 2 ^ 31" and "decodeRequest q = Some rq" and "isShutdownRequest rq"
    and "undisturbed (socketChannel (notebookUpdatesChannel (clientChannels c)))"
    and "incoming (socketChannel (notebookUpdatesChannel (clientChannels c))) = concat (map frame ps') @ fin"
    and "\<forall>p\<in>set ps'. length p < 2 ^ 31"
    and "length fin < 4 \<or> (\<exists>L junk. fin = putInt L @ junk \<and> L <s 0)"
    and "map decodeUpdate (filter (\<lambda>p. p \<noteq> []) ps') = map Some us"
    and "clientClosed c = Pending"
  shows "\<exists>c'. toList (requests isShutdownRequest decodeRequest) (False, c) = Some (rs @ [rq], None, True, c') \<and>
              incoming (socketChannel (mainChannel (clientChannels c'))) = later \<and>
              (\<exists>c''. toList (updates decodeUpdate) c' = Some (us, None, c'') \<and> clientClosed c'' = Pending) \<and>
              (\<forall>l. l \<noteq> Pending \<longrightarrow>
                 toList (updates decodeUpdate) (c'\<lparr>clientClosed := l\<rparr>) = Some ([], None, c'\<lparr>clientClosed := l\<rparr>))"
proof -
  from requests_until_shutdown [OF assms(1-9)] obtain m where
    t: "toList (requests isShutdownRequest decodeRequest) (False, c) =
          Some (rs @ [rq], None, True, c\<lparr>clientChannels := (clientChannels c)\<lparr>mainChannel := m\<rparr>\<rparr>)"
    and a: "advanced (mainChannel (clientChannels c)) later m"
    by blast
  let ?c' = "c\<lparr>clientChannels := (clientChannels c)\<lparr>mainChannel := m\<rparr>\<rparr>"
  from advanced_undisturbed [OF a assms(1)]
  have i: "incoming (socketChannel (mainChannel (clientChannels ?c'))) = later"
    by simp
  have "undisturbed (socketChannel (notebookUpdatesChannel (clientChannels ?c')))"
    "incoming (socketChannel (notebookUpdatesChannel (clientChannels ?c'))) = concat (map frame ps') @ fin"
    "clientClosed ?c' = Pending"
    using assms(10,11,15) by simp_all
  from updates_until_end [OF this(1,2) assms(12,13,14) this(3)]
  have u: "\<exists>c''. toList (updates decodeUpdate) ?c' = Some (us, None, c'') \<and> clientClosed c'' = Pending" .
  have f: "\<forall>l. l \<noteq> Pending \<longrightarrow>
             toList (updates decodeUpdate) (?c'\<lparr>clientClosed := l\<rparr>) = Some ([], None, ?c'\<lparr>clientClosed := l\<rparr>)"
    by (simp add: updates_latch_fired)
  from t i u f show ?thesis
    by blast
qed

text \<open>
  Claim C8 as stated has \<open>updates\<close> end only when the latch fires. On an updates channel
  whose stream is at its end, \<open>updates\<close> ends, and the latch is pending before and after.
\<close>

theorem updates_end_with_latch_pending_counterexample:
  "toList (updates example_decodeUpdate) (example_client [] [] Pending)
     = Some ([], None, example_client [] [] Pending) \<and>
   clientClosed (example_client [] [] Pending) = Pending"
proof -
  have "updates example_decodeUpdate (example_client [] [] Pending) = Some (Done, example_client [] [] Pending)"
    by (simp add: updates_def interruptAndIgnoreWhen_def updateStream_def bitVectors.simps read_def
          readBuffer_def readLength.simps channel_read_def deliver_def example_client_def
          FramedSocket_apply_def fresh_channel_def)
  then have "toList (updates example_decodeUpdate) (example_client [] [] Pending)
     = Some ([], None, example_client [] [] Pending)"
    by (rule toList_Done)
  then show ?thesis
    by (simp add: example_client_def)
qed

text \<open>
  A request, a keepalive, the shutdown request and one more request on the main channel;
  two updates on the other.
\<close>

theorem requests_end_at_shutdown_updates_go_on_witness:
  "undisturbed (fresh_channel (frame [1] @ frame [] @ frame [255] @ frame [2]) [] []) \<and>
   frame [1] @ frame [] @ frame [255] @ frame [2] = concat (map frame [[1], []]) @ frame [255] @ frame [2] \<and>
   map example_decodeRequest (filter (\<lambda>p. p \<noteq> []) [[1], []]) = map Some [ExecuteRequest 1] \<and>
   \<not> example_isShutdownRequest (ExecuteRequest 1) \<and>
   example_decodeRequest [255] = Some ShutdownRequest \<and> example_isShutdownRequest ShutdownRequest \<and>
   undisturbed (fresh_channel (frame [7] @ frame [8]) [] []) \<and>
   frame [7] @ frame [8] = concat (map frame [[7], [8]]) @ [] \<and>
   map example_decodeUpdate (filter (\<lambda>p. p \<noteq> []) [[7], [8]]) = map Some [[7], [8]] \<and>
   (\<exists>c'. toList (requests example_isShutdownRequest example_decodeRequest)
            (False, example_client (frame [1] @ frame [] @ frame [255] @ frame [2]) (frame [7] @ frame [8]) Pending)
          = Some ([ExecuteRequest 1, ShutdownRequest], None, True, c') \<and>
        incoming (socketChannel (mainChannel (clientChannels c'))) = frame [2] \<and>
        (\<exists>c''. toList (updates example_decodeUpdate) c' = Some ([[7], [8]], None, c'') \<and> clientClosed c'' = Pending))"
proof -
  let ?c = "example_client (frame [1] @ frame [] @ frame [255] @ frame [2]) (frame [7] @ frame [8]) Pending"
  have u: "undisturbed (fresh_channel (frame [1] @ frame [] @ frame [255] @ frame [2]) [] [])"
    "undisturbed (fresh_channel (frame [7] @ frame [8]) [] [])"
    by (simp_all add: undisturbed_def fresh_channel_def)
  have w: "frame [1] @ frame [] @ frame [255] @ frame [2] = concat (map frame [[1], []]) @ frame [255] @ frame [2]"
    "frame [7] @ frame [8] = concat (map frame [[7], [8]]) @ []"
    by simp_all
  have d: "map example_decodeRequest (filter (\<lambda>p. p \<noteq> []) [[1], []]) = map Some [ExecuteRequest 1]"
    "\<not> example_isShutdownRequest (ExecuteRequest 1)"
    "example_decodeRequest [255] = Some ShutdownRequest" "example_isShutdownRequest ShutdownRequest"
    "map example_decodeUpdate (filter (\<lambda>p. p \<noteq> []) [[7], [8]]) = map Some [[7], [8]]"
    by (simp_all add: example_decodeRequest_def example_isShutdownRequest_def example_decodeUpdate_def)
  have h1: "undisturbed (socketChannel (mainChannel (clientChannels ?c)))"
    and h10: "undisturbed (socketChannel (notebookUpdatesChannel (clientChannels ?c)))"
    using u by (simp_all add: example_client_def FramedSocket_apply_def)
  have h2: "incoming (socketChannel (mainChannel (clientChannels ?c))) = concat (map frame [[1], []]) @ frame [255] @ frame [2]"
    and h11: "incoming (socketChannel (notebookUpdatesChannel (clientChannels ?c))) = concat (map frame [[7], [8]]) @ []"
    by (simp_all add: example_client_def FramedSocket_apply_def fresh_channel_def)
  have h3: "\<forall>p\<in>set [[1 :: byte], []]. length p < 2 ^ 31" and h12: "\<forall>p\<in>set [[7 :: byte], [8]]. length p < 2 ^ 31"
    and h5: "\<forall>r\<in>set [ExecuteRequest 1]. \<not> example_isShutdownRequest r"
    and h6: "[255 :: byte] \<noteq> []" "length [255 :: byte] < 2 ^ 31"
    and h13: "length ([] :: byte list) < 4 \<or> (\<exists>L junk. [] = putInt L @ junk \<and> L <s 0)"
    and h15: "clientClosed ?c = Pending"
    using d(2) by (simp_all add: example_client_def)
  from requests_end_at_shutdown_updates_go_on
         [OF h1 h2 h3 d(1) h5 h6 d(3,4) h10 h11 h12 h13 d(5) h15]
  have c: "\<exists>c'. toList (requests example_isShutdownRequest example_decodeRequest) (False, ?c)
          = Some ([ExecuteRequest 1, ShutdownRequest], None, True, c') \<and>
        incoming (socketChannel (mainChannel (clientChannels c'))) = frame [2] \<and>
        (\<exists>c''. toList (updates example_decodeUpdate) c' = Some ([[7], [8]], None, c'') \<and> clientClosed c'' = Pending)"
    by auto
  show ?thesis
    by (intro conjI u w d c)
qed

end
